theory Spec2Isabelle
  imports Complex_Main "HOL-Library.Multiset"
begin

section \<open>Output file names (cluster.main, phylogeny.main)\<close>

text \<open>
  \<^verbatim>\<open>mode = mode or data.get("mode", "image")\<close> in \<^verbatim>\<open>cluster.main\<close>: the argument wins
  when it is truthy (neither \<^verbatim>\<open>None\<close> nor the empty string), otherwise the mode recorded
  in the raw data, otherwise \<^verbatim>\<open>"image"\<close>.
\<close>

definition data_get_mode :: "string option \<Rightarrow> string" where
  "data_get_mode data_mode = (case data_mode of Some m \<Rightarrow> m | None \<Rightarrow> ''image'')"

definition cluster_mode :: "string option \<Rightarrow> string option \<Rightarrow> string" where
  "cluster_mode mode data_mode =
     (case mode of
        None \<Rightarrow> data_get_mode data_mode
      | Some m \<Rightarrow> if m = [] then data_get_mode data_mode else m)"

text \<open>
  \<^verbatim>\<open>suffix = "_text" if mode == "text" else ""\<close>,
  \<^verbatim>\<open>output_path = DATA_DIR / f"embeddings_clustered{suffix}.json"\<close>.
\<close>

definition cluster_output_name :: "string \<Rightarrow> string" where
  "cluster_output_name mode =
     (let suffix = (if mode = ''text'' then ''_text'' else '''')
      in ''embeddings_clustered'' @ suffix @ ''.json'')"

text \<open>
  \<^verbatim>\<open>public_name = "embeddings_text.json" if mode == "text" else "embeddings_image.json"\<close>.
\<close>

definition cluster_public_name :: "string \<Rightarrow> string" where
  "cluster_public_name mode =
     (if mode = ''text'' then ''embeddings_text.json'' else ''embeddings_image.json'')"

text \<open>
  \<^verbatim>\<open>phylogeny.main\<close> overwrites its argument with the mode stored in the clustered data
  (\<^verbatim>\<open>mode = data.get("mode", "image")\<close>) and writes
  \<^verbatim>\<open>DATA_DIR / f"embeddings_{mode}.json"\<close>.
\<close>

definition phylogeny_output_name :: "string option \<Rightarrow> string" where
  "phylogeny_output_name data_mode =
     (let mode = data_get_mode data_mode in ''embeddings_'' @ mode @ ''.json'')"

section \<open>Python strings (ASCII model)\<close>

text \<open>
  A Python \<^verbatim>\<open>str\<close> is modelled as a \<^typ>\<open>string\<close> of 8-bit characters. The case and
  class tables below are Python's for the ASCII range; code points from 128 on are treated
  as uncased symbols that are neither letters nor white space.
\<close>

definition code :: "char \<Rightarrow> nat" where
  "code c = of_char c"

definition is_az :: "char \<Rightarrow> bool" where
  \<comment> \<open>\<^verbatim>\<open>'a' <= ch <= 'z'\<close>\<close>
  "is_az c = (97 \<le> code c \<and> code c \<le> 122)"

definition is_AZ :: "char \<Rightarrow> bool" where
  "is_AZ c = (65 \<le> code c \<and> code c \<le> 90)"

definition char_lower :: "char \<Rightarrow> char" where
  "char_lower c = (if is_AZ c then char_of (code c + 32) else c)"

definition char_upper :: "char \<Rightarrow> char" where
  "char_upper c = (if is_az c then char_of (code c - 32) else c)"

definition char_isalpha :: "char \<Rightarrow> bool" where
  "char_isalpha c = (is_az c \<or> is_AZ c)"

definition char_isspace :: "char \<Rightarrow> bool" where
  \<comment> \<open>tab, LF, VT, FF, CR, the separators FS..US and the space\<close>
  "char_isspace c = ((9 \<le> code c \<and> code c \<le> 13) \<or> (28 \<le> code c \<and> code c \<le> 32))"

definition lower :: "string \<Rightarrow> string" where
  \<comment> \<open>\<^verbatim>\<open>str.lower\<close>\<close>
  "lower s = map char_lower s"

definition isalpha :: "string \<Rightarrow> bool" where
  \<comment> \<open>\<^verbatim>\<open>str.isalpha\<close>: false on the empty string\<close>
  "isalpha s = (s \<noteq> [] \<and> list_all char_isalpha s)"

text \<open>
  \<^verbatim>\<open>str.title\<close>: a cased character that follows an uncased one (or starts the string)
  is upper-cased, every other cased character is lower-cased.
\<close>

fun title_from :: "bool \<Rightarrow> string \<Rightarrow> string" where
  "title_from prev_cased [] = []"
| "title_from prev_cased (c # cs) =
     (if is_az c then (if prev_cased then c else char_upper c) # title_from True cs
      else if is_AZ c then (if prev_cased then char_lower c else c) # title_from True cs
      else c # title_from False cs)"

definition title :: "string \<Rightarrow> string" where
  "title s = title_from False s"

text \<open>\<^verbatim>\<open>str.split()\<close> with no argument: the maximal runs of non-space characters.\<close>

fun split_from :: "string \<Rightarrow> string \<Rightarrow> string list" where
  "split_from cur [] = (if cur = [] then [] else [cur])"
| "split_from cur (c # cs) =
     (if char_isspace c then (if cur = [] then split_from [] cs else cur # split_from [] cs)
      else split_from (cur @ [c]) cs)"

definition split :: "string \<Rightarrow> string list" where
  "split s = split_from [] s"

definition strip :: "string \<Rightarrow> string \<Rightarrow> string" where
  \<comment> \<open>\<^verbatim>\<open>str.strip(chars)\<close>: drops leading and trailing characters that occur in \<open>chars\<close>\<close>
  "strip chars s =
     rev (dropWhile (\<lambda>c. c \<in> set chars) (rev (dropWhile (\<lambda>c. c \<in> set chars) s)))"

section \<open>collections.Counter\<close>

text \<open>
  A \<^verbatim>\<open>Counter\<close> is a dict, so it keeps its keys in the order of first insertion: an
  association list. \<^verbatim>\<open>most_common(n)\<close> is \<^verbatim>\<open>sorted(items, key=count, reverse=True)[:n]\<close>,
  a stable sort, so keys of equal count stay in insertion order.
\<close>

type_synonym 'a counter = "('a \<times> nat) list"

fun counter_incr :: "'a \<Rightarrow> 'a counter \<Rightarrow> 'a counter" where
  "counter_incr w [] = [(w, 1)]"
| "counter_incr w ((k, c) # rest) =
     (if k = w then (k, Suc c) # rest else (k, c) # counter_incr w rest)"

definition counter_update :: "'a list \<Rightarrow> 'a counter \<Rightarrow> 'a counter" where
  "counter_update ws cnt = fold counter_incr ws cnt"

definition most_common :: "nat \<Rightarrow> 'a counter \<Rightarrow> ('a \<times> nat) list" where
  "most_common n cnt = take n (sort_key (\<lambda>(w, c). - int c) cnt)"

text \<open>The count a counter holds for a key (\<^verbatim>\<open>cnt[w]\<close>, 0 for a missing key).\<close>

definition count_of :: "'a counter \<Rightarrow> 'a \<Rightarrow> nat" where
  "count_of cnt w = (case map_of cnt w of None \<Rightarrow> 0 | Some c \<Rightarrow> c)"

section \<open>Cluster labels (cluster.py)\<close>

datatype error = TypeError | AttributeError | IndexError | ValueError

definition IMAGE_LABELS :: "string list" where
  "IMAGE_LABELS =
    [''landscape painting'', ''portrait'', ''architecture'', ''vehicle'', ''car'',
     ''military'', ''nature photography'', ''abstract art'', ''digital art'',
     ''vintage photograph'', ''movie still'', ''product photo'', ''fashion'',
     ''interior design'', ''furniture'', ''technology'', ''diagram'', ''map'',
     ''meme'', ''screenshot'', ''UI design'', ''illustration'', ''sculpture'',
     ''historical photo'', ''aerial view'', ''food'', ''animal'', ''person'',
     ''building'', ''artwork'', ''document'', ''book cover'', ''poster'',
     ''romantic painting'', ''impressionist art'', ''classical art'']"

subsection \<open>\<open>_fallback_image_label\<close>\<close>

definition fallback_stop :: "string list" where
  "fallback_stop =
    [''image'', ''images'', ''img'', ''jpeg'', ''jpg'', ''png'', ''webp'', ''gif'',
     ''final'', ''copy'', ''screen'', ''screenshot'', ''photo'', ''pics'', ''picture'',
     ''download'', ''downloads'', ''edited'', ''edit'', ''export'', ''output'']"

text \<open>The character loop that cuts a lowered path into its runs of \<^verbatim>\<open>a..z\<close>.\<close>

fun az_tokens :: "string \<Rightarrow> string \<Rightarrow> string list" where
  "az_tokens cur [] = (if cur \<noteq> [] then [cur] else [])"
| "az_tokens cur (ch # s) =
     (if is_az ch then az_tokens (cur @ [ch]) s
      else if cur \<noteq> [] then cur # az_tokens [] s
      else az_tokens [] s)"

definition path_tokens :: "string \<Rightarrow> string list" where
  "path_tokens p =
     filter (\<lambda>t. \<not> length t < 4 \<and> t \<notin> set fallback_stop) (az_tokens [] (lower p))"

definition fallback_image_label :: "string list \<Rightarrow> string" where
  "fallback_image_label image_paths =
     (let counts = fold (\<lambda>p cnt. fold counter_incr (path_tokens p) cnt) (take 40 image_paths) []
      in case most_common 1 counts of
           [] \<Rightarrow> ''Images''
         | (t, _) # _ \<Rightarrow> title t)"

subsection \<open>\<open>get_image_semantic_label\<close>\<close>

text \<open>
  What the function reads from its surroundings: whether \<^verbatim>\<open>Image.open(path).convert("RGB")\<close>
  succeeds on a path (any exception there skips the path) and whether \<^verbatim>\<open>import torch\<close>
  succeeds. The CLIP model is an external collaborator: when present it is the function
  from the opened sample images to the \<^verbatim>\<open>top_k\<close> indices into \<^verbatim>\<open>IMAGE_LABELS\<close>.
  \<^verbatim>\<open>main\<close> passes \<^verbatim>\<open>None\<close> for model and processor when loading CLIP failed; calling
  the \<^verbatim>\<open>None\<close> processor is a \<^verbatim>\<open>TypeError\<close>, and no handler encloses that call.
\<close>

record host =
  can_open :: "string \<Rightarrow> bool"
  torch_importable :: bool

type_synonym clip_model = "string list \<Rightarrow> nat list"

definition get_image_semantic_label ::
  "host \<Rightarrow> clip_model option \<Rightarrow> unit option \<Rightarrow> string list \<Rightarrow> error + string" where
  "get_image_semantic_label h model processor image_paths =
     (let sample_paths = take 5 image_paths;
          images = filter (can_open h) sample_paths
      in if images = [] then Inr (fallback_image_label image_paths)
         else if \<not> torch_importable h then Inr (fallback_image_label image_paths)
         else case processor of
                None \<Rightarrow> Inl TypeError
              | Some _ \<Rightarrow>
                 (case model of
                    None \<Rightarrow> Inl AttributeError
                  | Some clip \<Rightarrow>
                     (let top_indices = clip images
                      in if list_ex (\<lambda>i. \<not> i < length IMAGE_LABELS) top_indices
                         then Inl IndexError
                         else (case map (\<lambda>i. title (IMAGE_LABELS ! i)) top_indices of
                                 [] \<Rightarrow> Inr (fallback_image_label image_paths)
                               | l # _ \<Rightarrow> Inr l))))"

subsection \<open>\<open>get_text_cluster_label\<close>\<close>

definition stopwords :: "string list" where
  "stopwords =
    [''the'', ''a'', ''an'', ''and'', ''or'', ''but'', ''in'', ''on'', ''at'', ''to'', ''for'',
     ''of'', ''with'', ''by'', ''from'', ''is'', ''are'', ''was'', ''were'', ''be'', ''been'',
     ''being'', ''have'', ''has'', ''had'', ''do'', ''does'', ''did'', ''will'', ''would'',
     ''could'', ''should'', ''may'', ''might'', ''must'', ''shall'', ''can'', ''this'',
     ''that'', ''these'', ''those'', ''i'', ''you'', ''he'', ''she'', ''it'', ''we'', ''they'',
     ''what'', ''which'', ''who'', ''when'', ''where'', ''why'', ''how'', ''all'', ''each'',
     ''every'', ''both'', ''few'', ''more'', ''most'', ''other'', ''some'', ''such'', ''no'',
     ''not'', ''only'', ''same'', ''so'', ''than'', ''too'', ''very'', ''just'', ''also'',
     ''now'', ''here'', ''there'', ''then'', ''if'', ''as'', ''because'', ''until'', ''while'',
     ''about'', ''into'', ''through'', ''during'', ''before'', ''after'', ''above'', ''below'']"

definition strip_chars :: string where
  \<comment> \<open>the argument of \<^verbatim>\<open>w.strip\<close>: \<^verbatim>\<open>.,!?()[]{}":;-_#*\<close>\<close>
  "strip_chars = [CHR ''.'', CHR '','', CHR ''!'', CHR ''?'', CHR ''('', CHR '')'', CHR ''['',
     CHR '']'', CHR ''{'', CHR ''}'', CHR 0x22, CHR '':'', CHR '';'', CHR ''-'', CHR ''_'',
     CHR ''#'', CHR ''*'']"

text \<open>
  An item, as the pipeline's JSON has it (the embedding and the projected coordinates are
  kept in arrays of their own). \<^verbatim>\<open>preview\<close> is optional.
\<close>

record item =
  item_id :: string
  content :: string
  timestamp :: int
  preview :: "string option"
  cluster :: int

text \<open>
  The text sampled for one item: \<^verbatim>\<open>item.get("preview", "")\<close>, and when that is empty the
  first 500 characters of the file at \<^verbatim>\<open>item["content"]\<close>; a failed read skips the item
  (\<open>None\<close>). The file system is the map \<open>fs\<close> from a path to what \<^verbatim>\<open>read_text\<close> returns.
\<close>

definition item_text :: "(string \<rightharpoonup> string) \<Rightarrow> item \<Rightarrow> string option" where
  "item_text fs it =
     (let text = (case preview it of Some p \<Rightarrow> p | None \<Rightarrow> [])
      in if text = [] then (case fs (content it) of None \<Rightarrow> None | Some t \<Rightarrow> Some (take 500 t))
         else Some text)"

definition extract_words :: "string \<Rightarrow> string list" where
  "extract_words text =
     (let words = split (lower text);
          words = map (strip strip_chars) words
      in filter (\<lambda>w. length w > 3 \<and> w \<notin> set stopwords \<and> isalpha w) words)"

definition text_word_counts :: "(string \<rightharpoonup> string) \<Rightarrow> item list \<Rightarrow> string counter" where
  "text_word_counts fs items =
     fold (\<lambda>it cnt. case item_text fs it of
                      None \<Rightarrow> cnt
                    | Some text \<Rightarrow> counter_update (extract_words text) cnt)
          (take 10 items) []"

definition get_text_cluster_label :: "(string \<rightharpoonup> string) \<Rightarrow> item list \<Rightarrow> string" where
  "get_text_cluster_label fs items =
     (let top_words = map fst (most_common 3 (text_word_counts fs items))
      in case top_words of
           w # _ \<Rightarrow> title w
         | [] \<Rightarrow> ''misc'')"

text \<open>
  The spec's reading of the text label, for comparison with the code: the words that
  survive the filter, over the texts of the sampled items, in reading order.
\<close>

definition sampled_words :: "(string \<rightharpoonup> string) \<Rightarrow> item list \<Rightarrow> string list" where
  "sampled_words fs items =
     concat (map extract_words (List.map_filter (item_text fs) (take 10 items)))"


section \<open>Species (phylogeny.py)\<close>

text \<open>
  A cluster record as \<open>run_clustering\<close> writes it (\<^verbatim>\<open>id\<close>, \<^verbatim>\<open>label\<close>, \<^verbatim>\<open>centroid\<close>, \<^verbatim>\<open>size\<close>) and a
  species record as \<open>generate_species\<close> writes it. The field names carry a prefix because
  \<^verbatim>\<open>id\<close>, \<^verbatim>\<open>size\<close> and \<^verbatim>\<open>count\<close> are constants of the logic. A centroid is a 2D point.
\<close>

record cluster_rec =
  c_id :: int
  c_label :: string
  c_centroid :: "real \<times> real"
  c_size :: nat

record species =
  sp_id :: string
  sp_cluster_id :: int
  sp_name :: string
  sp_date_range :: string
  sp_min_timestamp :: int
  sp_max_timestamp :: int
  sp_centroid :: "real \<times> real"
  sp_count :: nat
  sp_item_ids :: "string list"

text \<open>\<^verbatim>\<open>str(n)\<close> for an integer: its decimal digits, with a leading minus sign.\<close>

fun str_nat :: "nat \<Rightarrow> string" where
  "str_nat n = (if n < 10 then [char_of (48 + n)]
                else str_nat (n div 10) @ [char_of (48 + n mod 10)])"

declare str_nat.simps [simp del]

definition str_int :: "int \<Rightarrow> string" where
  "str_int i = (if i < 0 then CHR ''-'' # str_nat (nat (- i)) else str_nat (nat i))"

text \<open>
  \<^verbatim>\<open>cluster_items = defaultdict(list)\<close>: a dict from cluster id to the items appended so far,
  in the order the ids were first seen. \<^verbatim>\<open>cluster_items[k].append(item)\<close>:
\<close>

fun group_append :: "int \<Rightarrow> item \<Rightarrow> (int \<times> item list) list \<Rightarrow> (int \<times> item list) list" where
  "group_append k it [] = [(k, [it])]"
| "group_append k it ((k', its) # rest) =
     (if k' = k then (k', its @ [it]) # rest else (k', its) # group_append k it rest)"

definition group_by_cluster :: "item list \<Rightarrow> (int \<times> item list) list" where
  "group_by_cluster items =
     fold (\<lambda>it g. if cluster it \<ge> 0 then group_append (cluster it) it g else g) items []"

text \<open>\<^verbatim>\<open>cluster_map = {c["id"]: c for c in clusters}\<close>: a later record replaces an earlier one.\<close>

definition cluster_map :: "cluster_rec list \<Rightarrow> (int \<rightharpoonup> cluster_rec)" where
  "cluster_map clusters = fold (\<lambda>c m. m(c_id c \<mapsto> c)) clusters Map.empty"

definition arrow :: string where
  \<comment> \<open>the separator \<^verbatim>\<open>" -> "\<close> written with U+2192, here in UTF-8\<close>
  "arrow = [CHR '' '', CHR 0xE2, CHR 0x86, CHR 0x92, CHR '' '']"

text \<open>
  One species record. \<open>month\<close> stands for
  \<^verbatim>\<open>datetime.fromtimestamp(ts).strftime("%Y-%m")\<close>, which depends on the local time zone of
  the host.
\<close>

definition make_species :: "(int \<Rightarrow> string) \<Rightarrow> int \<Rightarrow> cluster_rec \<Rightarrow> item list \<Rightarrow> species" where
  "make_species month cid c items_in_cluster =
     (let timestamps = map timestamp items_in_cluster;
          min_ts = Min (set timestamps);
          max_ts = Max (set timestamps);
          min_date = month min_ts;
          max_date = month max_ts;
          date_range = (if min_date = max_date then min_date else min_date @ arrow @ max_date)
      in \<lparr>sp_id = ''species_'' @ str_int cid,
          sp_cluster_id = cid,
          sp_name = c_label c,
          sp_date_range = date_range,
          sp_min_timestamp = min_ts,
          sp_max_timestamp = max_ts,
          sp_centroid = c_centroid c,
          sp_count = length items_in_cluster,
          sp_item_ids = map item_id items_in_cluster\<rparr>)"

text \<open>
  The loop over \<^verbatim>\<open>cluster_items.items()\<close>, with its \<^verbatim>\<open>continue\<close> for an id that is not a key
  of \<^verbatim>\<open>cluster_map\<close>, and the final stable \<^verbatim>\<open>species.sort(key=min_timestamp)\<close>.
\<close>

definition species_step ::
  "(int \<Rightarrow> string) \<Rightarrow> (int \<rightharpoonup> cluster_rec) \<Rightarrow> int \<times> item list \<Rightarrow> species list \<Rightarrow> species list" where
  "species_step month cmap entry acc =
     (case entry of (cluster_id, items_in_cluster) \<Rightarrow>
        (case cmap cluster_id of
           None \<Rightarrow> acc
         | Some c \<Rightarrow> acc @ [make_species month cluster_id c items_in_cluster]))"

definition generate_species :: "(int \<Rightarrow> string) \<Rightarrow> item list \<Rightarrow> cluster_rec list \<Rightarrow> species list" where
  "generate_species month items clusters =
     (let cluster_items = group_by_cluster items;
          species = fold (species_step month (cluster_map clusters)) cluster_items []
      in sort_key sp_min_timestamp species)"

text \<open>The list a grouping holds for a cluster id (empty for a missing key).\<close>

definition bucket :: "(int \<times> item list) list \<Rightarrow> int \<Rightarrow> item list" where
  "bucket g k = (case map_of g k of None \<Rightarrow> [] | Some its \<Rightarrow> its)"

section \<open>Clustering (cluster.py)\<close>

text \<open>
  \<open>run_clustering\<close>. HDBSCAN is an external collaborator: \<open>fit_predict\<close> stands for
  \<^verbatim>\<open>clusterer.fit_predict\<close>, from the projected coordinates to one integer label per point
  (\<open>-1\<close> for noise), so that a mask over the labels has the length of the coordinates.
  The coordinates are the rows of an \<open>N \<times> 2\<close> array.
\<close>

type_synonym point = "real \<times> real"

definition mean_axis0 :: "point list \<Rightarrow> point" where
  \<comment> \<open>\<^verbatim>\<open>.mean(axis=0)\<close> of the selected rows\<close>
  "mean_axis0 pts =
     (sum_list (map fst pts) / real (length pts), sum_list (map snd pts) / real (length pts))"

definition select_mask :: "bool list \<Rightarrow> 'a list \<Rightarrow> 'a list" where
  \<comment> \<open>\<^verbatim>\<open>coords[mask]\<close>: the rows whose mask entry is true\<close>
  "select_mask bs rows = map snd (filter fst (zip bs rows))"

text \<open>
  The label of one cluster: \<open>get_image_semantic_label\<close> on the members' \<^verbatim>\<open>content\<close> paths in
  image mode, \<open>get_text_cluster_label\<close> on the members otherwise.
\<close>

definition cluster_label ::
  "host \<Rightarrow> (string \<rightharpoonup> string) \<Rightarrow> string \<Rightarrow> clip_model option \<Rightarrow> unit option \<Rightarrow>
   item list \<Rightarrow> error + string" where
  "cluster_label h fs mode model processor cluster_items =
     (if mode = ''image''
      then (let image_paths = map content cluster_items
            in get_image_semantic_label h model processor image_paths)
      else Inr (get_text_cluster_label fs cluster_items))"

text \<open>
  The body of the loop for one cluster id, with \<open>label_mask\<close> for \<^verbatim>\<open>mask = labels == cluster_id\<close>
  and its count of true entries for \<^verbatim>\<open>mask.sum()\<close>. \<^verbatim>\<open>mask[i]\<close> for \<open>i\<close> in \<^verbatim>\<open>range(len(items))\<close> is an
  \<^verbatim>\<open>IndexError\<close> when there are more items than labels.
\<close>

definition cluster_record ::
  "host \<Rightarrow> (string \<rightharpoonup> string) \<Rightarrow> string \<Rightarrow> clip_model option \<Rightarrow> unit option \<Rightarrow>
   point list \<Rightarrow> item list \<Rightarrow> int list \<Rightarrow> int \<Rightarrow> error + cluster_rec" where
  "cluster_record h fs mode model processor coords items labels cluster_id =
     (let label_mask = map (\<lambda>l. l = cluster_id) labels;
          centroid = mean_axis0 (select_mask label_mask coords)
      in if length items > length label_mask then Inl IndexError
         else (let cluster_items =
                     map (\<lambda>i. items ! i) (filter (\<lambda>i. label_mask ! i) [0..<length items])
               in case cluster_label h fs mode model processor cluster_items of
                    Inl e \<Rightarrow> Inl e
                  | Inr label \<Rightarrow>
                      Inr \<lparr>c_id = cluster_id, c_label = label, c_centroid = centroid,
                           c_size = length (filter id label_mask)\<rparr>))"

text \<open>The loop: the records in order, or the first exception.\<close>

fun collect :: "('a \<Rightarrow> error + 'b) \<Rightarrow> 'a list \<Rightarrow> error + 'b list" where
  "collect f [] = Inr []"
| "collect f (x # xs) =
     (case f x of
        Inl e \<Rightarrow> Inl e
      | Inr y \<Rightarrow> (case collect f xs of Inl e \<Rightarrow> Inl e | Inr ys \<Rightarrow> Inr (y # ys)))"

definition unique_labels :: "int list \<Rightarrow> int list" where
  \<comment> \<open>\<^verbatim>\<open>sorted(set(labels) - {-1})\<close>\<close>
  "unique_labels labels = sort (remdups (filter (\<lambda>l. l \<noteq> - 1) labels))"

definition run_clustering ::
  "(point list \<Rightarrow> int list) \<Rightarrow> host \<Rightarrow> (string \<rightharpoonup> string) \<Rightarrow>
   point list \<Rightarrow> item list \<Rightarrow> string \<Rightarrow> clip_model option \<Rightarrow> unit option \<Rightarrow>
   error + (int list \<times> cluster_rec list)" where
  "run_clustering fit_predict h fs coords items mode model processor =
     (let labels = fit_predict coords
      in case collect (cluster_record h fs mode model processor coords items labels)
                (unique_labels labels) of
           Inl e \<Rightarrow> Inl e
         | Inr clusters \<Rightarrow> Inr (labels, clusters))"

text \<open>The members of a cluster: the positions that carry its label.\<close>

definition members :: "int list \<Rightarrow> int \<Rightarrow> nat set" where
  "members labels k = {i. i < length labels \<and> labels ! i = k}"

section \<open>The constrained distance graph (phylogeny.py)\<close>

definition TEMPORAL_THRESHOLD :: int where
  "TEMPORAL_THRESHOLD = 30 * 24 * 60 * 60"

definition SIMILARITY_THRESHOLD :: real where
  "SIMILARITY_THRESHOLD = 0.85"

text \<open>
  Matrices are lists of rows. The floats of the similarity and distance matrices are
  modelled as reals; an entry of the distance matrix is \<open>None\<close> where the array holds
  \<^verbatim>\<open>np.inf\<close>. Timestamps are integer seconds.
\<close>

type_synonym dist_matrix = "real option list list"

definition square :: "nat \<Rightarrow> 'a list list \<Rightarrow> bool" where
  "square n m = (length m = n \<and> list_all (\<lambda>row. length row = n) m)"

definition set_cell :: "nat \<Rightarrow> nat \<Rightarrow> 'a \<Rightarrow> 'a list list \<Rightarrow> 'a list list" where
  \<comment> \<open>\<^verbatim>\<open>m[i, j] = v\<close>\<close>
  "set_cell i j v m = m[i := (m ! i)[j := v]]"

text \<open>The body of the inner loop, for one pair \<open>i < j\<close>.\<close>

definition pair_weight :: "real list list \<Rightarrow> int list \<Rightarrow> nat \<Rightarrow> nat \<Rightarrow> real" where
  "pair_weight similarity timestamps i j =
     (let time_diff = \<bar>timestamps ! i - timestamps ! j\<bar>;
          sim = similarity ! i ! j;
          dist = 1 - sim;
          dist = dist + (real_of_int time_diff / real_of_int TEMPORAL_THRESHOLD) * 0.01
      in dist)"

definition pair_linked :: "real list list \<Rightarrow> int list \<Rightarrow> nat \<Rightarrow> nat \<Rightarrow> bool" where
  "pair_linked similarity timestamps i j =
     (let time_diff = \<bar>timestamps ! i - timestamps ! j\<bar>;
          sim = similarity ! i ! j;
          temporally_close = time_diff < TEMPORAL_THRESHOLD;
          highly_similar = sim > SIMILARITY_THRESHOLD
      in temporally_close \<or> highly_similar)"

definition pair_step ::
  "real list list \<Rightarrow> int list \<Rightarrow> nat \<Rightarrow> nat \<Rightarrow> dist_matrix \<Rightarrow> dist_matrix" where
  "pair_step similarity timestamps i j distances =
     (if pair_linked similarity timestamps i j
      then (let dist = pair_weight similarity timestamps i j
            in set_cell j i (Some dist) (set_cell i j (Some dist) distances))
      else distances)"

definition build_constrained_graph :: "real list list \<Rightarrow> int list \<Rightarrow> dist_matrix" where
  "build_constrained_graph similarity timestamps =
     (let n = length timestamps;
          distances = replicate n (replicate n None)
      in fold (\<lambda>i d. fold (pair_step similarity timestamps i) [i + 1..<n] d) [0..<n] distances)"

section \<open>The phylogeny tree (phylogeny.py)\<close>

definition distances_fallback :: "dist_matrix \<Rightarrow> real list list" where
  \<comment> \<open>\<^verbatim>\<open>distances_fallback[distances_fallback == np.inf] = 1000\<close>\<close>
  "distances_fallback distances =
     map (map (\<lambda>d. case d of None \<Rightarrow> 1000 | Some v \<Rightarrow> v)) distances"

definition symmetrize :: "nat \<Rightarrow> real list list \<Rightarrow> real list list" where
  \<comment> \<open>\<^verbatim>\<open>mst_array + mst_array.T\<close> for an \<open>n \<times> n\<close> array\<close>
  "symmetrize n mst_array =
     map (\<lambda>i. map (\<lambda>j. mst_array ! i ! j + mst_array ! j ! i) [0..<n]) [0..<n]"

definition argmin :: "int list \<Rightarrow> nat" where
  \<comment> \<open>\<^verbatim>\<open>np.argmin\<close>: the first position that holds the minimum\<close>
  "argmin ts = length (takeWhile (\<lambda>t. t \<noteq> Min (set ts)) ts)"

text \<open>
  The state of the traversal: \<^verbatim>\<open>visited\<close>, \<^verbatim>\<open>parent\<close> (\<open>-1\<close> for none) and \<^verbatim>\<open>queue\<close>. A read or
  write outside a list or array is an \<^verbatim>\<open>IndexError\<close>.
\<close>

record bfs =
  visited :: "bool list"
  parent :: "int list"
  queue :: "nat list"

text \<open>
  The body of \<^verbatim>\<open>for neighbor in range(n)\<close>:
  \<^verbatim>\<open>if mst_symmetric[node, neighbor] > 0 and not visited[neighbor]: ...\<close>
\<close>

definition visit :: "real list list \<Rightarrow> nat \<Rightarrow> nat \<Rightarrow> bfs \<Rightarrow> error + bfs" where
  "visit mst_symmetric node neighbor s =
     (if \<not> (node < length mst_symmetric \<and> neighbor < length (mst_symmetric ! node))
      then Inl IndexError
      else if mst_symmetric ! node ! neighbor > 0
      then (if \<not> neighbor < length (visited s) then Inl IndexError
            else if \<not> visited s ! neighbor
            then (if \<not> neighbor < length (parent s) then Inl IndexError
                  else Inr (s\<lparr>visited := (visited s)[neighbor := True],
                              parent := (parent s)[neighbor := int node],
                              queue := queue s @ [neighbor]\<rparr>))
            else Inr s)
      else Inr s)"

text \<open>A \<^verbatim>\<open>for\<close> loop over a list whose body may raise.\<close>

fun for_each :: "('a \<Rightarrow> 's \<Rightarrow> error + 's) \<Rightarrow> 'a list \<Rightarrow> 's \<Rightarrow> error + 's" where
  "for_each body [] s = Inr s"
| "for_each body (x # xs) s =
     (case body x s of Inl e \<Rightarrow> Inl e | Inr s' \<Rightarrow> for_each body xs s')"

text \<open>
  The measure of the \<^verbatim>\<open>while queue\<close> loop: every pass pops one node, and every node appended
  to the queue was unvisited before.
\<close>

definition unvisited :: "bfs \<Rightarrow> nat" where
  "unvisited s = length (filter Not (visited s))"

definition bfs_measure :: "bfs \<Rightarrow> nat" where
  "bfs_measure s = 2 * unvisited s + length (queue s)"

lemma filter_Not_update:
  "i < length bs \<Longrightarrow> \<not> bs ! i \<Longrightarrow>
   Suc (length (filter Not (bs[i := True]))) = length (filter Not bs)"
proof (induction bs arbitrary: i)
  case Nil
  then show ?case by simp
next
  case (Cons b bs)
  then show ?case by (cases i) simp_all
qed

lemma visit_measure: "visit m node neighbor s = Inr s' \<Longrightarrow> bfs_measure s' \<le> bfs_measure s"
proof -
  assume v: "visit m node neighbor s = Inr s'"
  show ?thesis
  proof (cases "s' = s")
    case True
    then show ?thesis by simp
  next
    case False
    with v have nb: "neighbor < length (visited s)" "\<not> visited s ! neighbor"
      and s': "s' = s\<lparr>visited := (visited s)[neighbor := True],
                      parent := (parent s)[neighbor := int node],
                      queue := queue s @ [neighbor]\<rparr>"
      by (auto simp: visit_def split: if_splits)
    from filter_Not_update [OF nb] show ?thesis
      by (simp add: s' bfs_measure_def unvisited_def)
  qed
qed

lemma for_each_visit_measure:
  "for_each (visit m node) xs s = Inr s' \<Longrightarrow> bfs_measure s' \<le> bfs_measure s"
proof (induction xs arbitrary: s)
  case Nil
  then show ?case by simp
next
  case (Cons x xs)
  then obtain t where t: "visit m node x s = Inr t" and r: "for_each (visit m node) xs t = Inr s'"
    by (auto split: sum.splits)
  from Cons.IH [OF r] visit_measure [OF t] show ?case by simp
qed

function bfs_loop :: "real list list \<Rightarrow> nat \<Rightarrow> bfs \<Rightarrow> error + bfs" where
  "bfs_loop mst_symmetric n s =
     (case queue s of
        [] \<Rightarrow> Inr s
      | node # rest \<Rightarrow>
          (case for_each (visit mst_symmetric node) [0..<n] (s\<lparr>queue := rest\<rparr>) of
             Inl e \<Rightarrow> Inl e
           | Inr s' \<Rightarrow> bfs_loop mst_symmetric n s'))"
  by pat_completeness auto

termination
proof (relation "measure (\<lambda>(m, n, s). bfs_measure s)")
  show "wf (measure (\<lambda>(m, n, s). bfs_measure s))"
    by simp
next
  fix m :: "real list list" and n :: nat and s s' :: bfs and node rest
  assume q: "queue s = node # rest"
    and f: "for_each (visit m node) [0..<n] (s\<lparr>queue := rest\<rparr>) = Inr s'"
  from for_each_visit_measure [OF f] q
  show "((m, n, s'), (m, n, s)) \<in> measure (\<lambda>(m, n, s). bfs_measure s)"
    by (simp add: bfs_measure_def unvisited_def)
qed

declare bfs_loop.simps [simp del]

text \<open>
  \<^verbatim>\<open>for i in range(n): if not visited[i]: parent[i] = root_idx\<close>, the attachment of the nodes
  the traversal did not reach.
\<close>

definition attach :: "nat \<Rightarrow> nat \<Rightarrow> bfs \<Rightarrow> error + bfs" where
  "attach root_idx i s =
     (if \<not> i < length (visited s) then Inl IndexError
      else if \<not> visited s ! i
      then (if \<not> i < length (parent s) then Inl IndexError
            else Inr (s\<lparr>parent := (parent s)[i := int root_idx]\<rparr>))
      else Inr s)"

text \<open>
  The traversal as a whole, from the symmetrized spanning tree and the timestamps: the
  state when the queue has run empty, and the parent indices after the attachment loop.
  \<^verbatim>\<open>np.argmin\<close> of an empty list is a \<^verbatim>\<open>ValueError\<close>.
\<close>

definition traverse :: "real list list \<Rightarrow> int list \<Rightarrow> error + bfs" where
  "traverse mst_symmetric timestamps =
     (if timestamps = [] then Inl ValueError
      else (let root_idx = argmin timestamps;
                n = length timestamps;
                visited0 = replicate n False;
                parent0 = replicate n (- 1);
                queue0 = [root_idx]
            in bfs_loop mst_symmetric n
                 \<lparr>visited = visited0[root_idx := True], parent = parent0, queue = queue0\<rparr>))"

definition parents :: "real list list \<Rightarrow> int list \<Rightarrow> error + int list" where
  "parents mst_symmetric timestamps =
     (case traverse mst_symmetric timestamps of
        Inl e \<Rightarrow> Inl e
      | Inr s \<Rightarrow>
          (case for_each (attach (argmin timestamps)) [0..<length timestamps] s of
             Inl e \<Rightarrow> Inl e
           | Inr s' \<Rightarrow> Inr (parent s')))"

text \<open>
  A node of the output and the tree document. \<open>date\<close> stands for
  \<^verbatim>\<open>datetime.fromtimestamp(ts).strftime("%Y-%m-%d")\<close> (local time zone), and
  \<open>minimum_spanning_tree\<close> for SciPy's function followed by \<^verbatim>\<open>.toarray()\<close>. The fields
  \<open>date_min\<close> and \<open>date_max\<close> are the entries \<^verbatim>\<open>min\<close> and \<^verbatim>\<open>max\<close> of \<^verbatim>\<open>date_range\<close>.
\<close>

record tree_node =
  n_id :: string
  n_parent :: "string option"
  n_timestamp :: int
  n_date :: string
  n_cluster :: int

record phylogeny =
  nodes :: "tree_node list"
  root_id :: string
  root_date :: string
  date_min :: string
  date_max :: string

definition make_node :: "(int \<Rightarrow> string) \<Rightarrow> item list \<Rightarrow> int list \<Rightarrow> nat \<Rightarrow> tree_node" where
  "make_node date items par i =
     (let it = items ! i; ts = timestamp it
      in \<lparr>n_id = item_id it,
          n_parent = (if par ! i \<ge> 0 then Some (item_id (items ! nat (par ! i))) else None),
          n_timestamp = ts,
          n_date = date ts,
          n_cluster = cluster it\<rparr>)"

definition build_phylogeny_tree ::
  "(real list list \<Rightarrow> real list list) \<Rightarrow> (int \<Rightarrow> string) \<Rightarrow> dist_matrix \<Rightarrow> item list \<Rightarrow>
   error + phylogeny" where
  "build_phylogeny_tree minimum_spanning_tree date distances items =
     (let mst_array = minimum_spanning_tree (distances_fallback distances);
          timestamps = map timestamp items;
          n = length items;
          mst_symmetric = symmetrize n mst_array
      in case parents mst_symmetric timestamps of
           Inl e \<Rightarrow> Inl e
         | Inr par \<Rightarrow>
             (let root_idx = argmin timestamps
              in Inr \<lparr>nodes = map (make_node date items par) [0..<n],
                      root_id = item_id (items ! root_idx),
                      root_date = date (Min (set timestamps)),
                      date_min = date (Min (set timestamps)),
                      date_max = date (Max (set timestamps))\<rparr>))"

text \<open>Following parent pointers \<open>k\<close> times, stopping at a node without parent.\<close>

fun follow :: "int list \<Rightarrow> nat \<Rightarrow> nat \<Rightarrow> nat" where
  "follow par 0 i = i"
| "follow par (Suc k) i = (if par ! i \<ge> 0 then follow par k (nat (par ! i)) else i)"

text \<open>Reachability over the strictly positive entries of a matrix.\<close>

inductive pos_reach :: "real list list \<Rightarrow> nat \<Rightarrow> nat \<Rightarrow> nat \<Rightarrow> bool"
  for m :: "real list list" and n :: nat and r :: nat where
  start: "pos_reach m n r r"
| step: "pos_reach m n r i \<Longrightarrow> i < n \<Longrightarrow> j < n \<Longrightarrow> m ! i ! j > 0 \<Longrightarrow> pos_reach m n r j"

text \<open>
  The invariant of the traversal, for a root \<open>r\<close>: the lists keep their length, the root
  is visited and has no parent, the queue holds visited nodes, an unvisited node has no
  parent yet, a visited node is joined to the root by strictly positive entries, and the
  visited nodes can be numbered (in the order of their discovery) so that every visited
  node other than the root was discovered from a visited node of smaller number.
\<close>

definition visited_count :: "bfs \<Rightarrow> nat" where
  "visited_count s = length (filter id (visited s))"

definition numbered :: "real list list \<Rightarrow> nat \<Rightarrow> nat \<Rightarrow> bool list \<Rightarrow> int list \<Rightarrow> nat \<Rightarrow> (nat \<Rightarrow> nat) \<Rightarrow> bool" where
  "numbered m n r vs par bound ord \<longleftrightarrow>
     (\<forall>i < n. vs ! i \<longrightarrow>
        ord i < bound \<and>
        (i \<noteq> r \<longrightarrow> (\<exists>p < n. par ! i = int p \<and> vs ! p \<and> ord p < ord i \<and> m ! p ! i > 0)))"

definition bfs_inv :: "real list list \<Rightarrow> nat \<Rightarrow> nat \<Rightarrow> bfs \<Rightarrow> bool" where
  "bfs_inv m n r s \<longleftrightarrow>
     length (visited s) = n \<and> length (parent s) = n \<and> r < n \<and>
     visited s ! r \<and> parent s ! r = - 1 \<and>
     (\<forall>q \<in> set (queue s). q < n \<and> visited s ! q) \<and>
     (\<forall>i < n. \<not> visited s ! i \<longrightarrow> parent s ! i = - 1) \<and>
     (\<forall>i < n. visited s ! i \<longrightarrow> pos_reach m n r i) \<and>
     (\<exists>ord. numbered m n r (visited s) (parent s) (visited_count s) ord)"

text \<open>
  A visited node is settled when every node it has a strictly positive entry to is
  visited too: the state of a node after its pass through \<^verbatim>\<open>for neighbor in range(n)\<close>.
\<close>

definition settled :: "real list list \<Rightarrow> nat \<Rightarrow> bfs \<Rightarrow> nat \<Rightarrow> bool" where
  "settled m n s i \<longleftrightarrow> (\<forall>j < n. m ! i ! j > 0 \<longrightarrow> visited s ! j)"

section \<open>Theorems\<close>

subsection \<open>C7: naming convention of the output files\<close>

text \<open>
  C7, as stated, asks for an unsuffixed image-mode name for the final phylogeny file as
  well. The final file of an image run is \<^verbatim>\<open>embeddings_image.json\<close>, not the unsuffixed
  \<^verbatim>\<open>embeddings.json\<close> obtained by dropping \<^verbatim>\<open>_text\<close> from the text-mode name.
\<close>

theorem C7_phylogeny_image_name_counterexample:
  "phylogeny_output_name (Some ''text'') = ''embeddings'' @ ''_text'' @ ''.json'' \<and>
   phylogeny_output_name (Some ''image'') \<noteq> ''embeddings'' @ ''.json'' \<and>
   phylogeny_output_name (Some ''image'') = ''embeddings_image.json''"
  by (simp add: phylogeny_output_name_def data_get_mode_def)

text \<open>
  C7 (amended): the clustered intermediate file is unsuffixed unless the effective mode is
  \<^verbatim>\<open>text\<close>, in which case it carries \<^verbatim>\<open>_text\<close>. The effective mode is the mode argument
  when it is given (not \<^verbatim>\<open>None\<close> and not empty), else the mode recorded in the raw data, else
  \<^verbatim>\<open>image\<close>. The final phylogeny file is always \<^verbatim>\<open>embeddings_<mode>.json\<close>, with the mode
  taken from the clustered data (\<^verbatim>\<open>image\<close> when the data records none), so both modes carry
  a mode suffix there.
\<close>

theorem C7_output_names:
  "cluster_output_name ''text'' = ''embeddings_clustered_text.json'' \<and>
   (mode \<noteq> ''text'' \<longrightarrow> cluster_output_name mode = ''embeddings_clustered.json'') \<and>
   phylogeny_output_name (Some mode) = ''embeddings_'' @ mode @ ''.json'' \<and>
   phylogeny_output_name None = ''embeddings_image.json'' \<and>
   cluster_mode (Some ''text'') data_mode = ''text'' \<and>
   cluster_mode (Some ''image'') data_mode = ''image'' \<and>
   cluster_mode None None = ''image'' \<and>
   (arg \<noteq> [] \<longrightarrow> cluster_mode (Some arg) data_mode = arg) \<and>
   cluster_mode None (Some recorded) = recorded \<and>
   cluster_mode (Some []) (Some recorded) = recorded \<and>
   cluster_mode (Some []) None = ''image'' \<and>
   cluster_output_name (cluster_mode None (Some ''text'')) = ''embeddings_clustered_text.json'' \<and>
   cluster_output_name (cluster_mode None (Some ''image'')) = ''embeddings_clustered.json'' \<and>
   cluster_output_name (cluster_mode None None) = ''embeddings_clustered.json''"
  by (simp add: cluster_output_name_def phylogeny_output_name_def data_get_mode_def
      cluster_mode_def)

theorem C7_output_names_witness:
  "''image'' \<noteq> ''text'' \<and> ''text'' \<noteq> [] \<and>
   cluster_output_name ''image'' = ''embeddings_clustered.json'' \<and>
   phylogeny_output_name (Some ''image'') = ''embeddings_image.json'' \<and>
   phylogeny_output_name (Some ''text'') = ''embeddings_text.json'' \<and>
   cluster_mode (Some ''text'') (Some ''image'') = ''text'' \<and>
   cluster_mode None (Some ''text'') = ''text'' \<and>
   cluster_mode (Some []) (Some ''text'') = ''text''"
  using C7_output_names [where mode = "''image''" and arg = "''text''"
      and data_mode = "Some ''image''" and recorded = "''text''"]
    C7_output_names [where mode = "''text''" and arg = "''text''"
      and data_mode = "Some ''image''" and recorded = "''text''"]
  by simp

subsection \<open>Characters and title-casing\<close>

lemma code_char_of: "code (char_of (n::nat)) = n mod 256"
  by (simp add: code_def)

lemma code_slash: "code (CHR ''/'') = 47"
  by (simp add: code_def)

lemma char_upper_not_slash: "is_az c \<Longrightarrow> char_upper c \<noteq> CHR ''/''"
proof
  assume az: "is_az c" and eq: "char_upper c = CHR ''/''"
  from az have "code c - 32 < 256"
    by (auto simp: is_az_def)
  with az have "code (char_upper c) = code c - 32"
    by (simp add: char_upper_def code_char_of)
  with eq have "code c - 32 = 47"
    by (simp add: code_slash)
  with az show False
    unfolding is_az_def by linarith
qed

lemma char_lower_not_slash: "is_AZ c \<Longrightarrow> char_lower c \<noteq> CHR ''/''"
proof
  assume AZ: "is_AZ c" and eq: "char_lower c = CHR ''/''"
  from AZ have "code c + 32 < 256"
    by (auto simp: is_AZ_def)
  with AZ have "code (char_lower c) = code c + 32"
    by (simp add: char_lower_def code_char_of)
  with eq have "code c + 32 = 47"
    by (simp add: code_slash)
  with AZ show False
    unfolding is_AZ_def by linarith
qed

lemma slash_not_cased: "\<not> is_az (CHR ''/'')" "\<not> is_AZ (CHR ''/'')"
  by (simp_all add: is_az_def is_AZ_def code_slash)

lemma title_from_no_slash:
  "CHR ''/'' \<notin> set s \<Longrightarrow> CHR ''/'' \<notin> set (title_from b s)"
proof (induction s arbitrary: b)
  case Nil
  then show ?case by simp
next
  case (Cons c cs)
  then have tl: "\<And>b'. CHR ''/'' \<notin> set (title_from b' cs)" and hd: "c \<noteq> CHR ''/''"
    by auto
  show ?case
    using tl hd char_upper_not_slash [of c] char_lower_not_slash [of c]
    by (auto simp del: title_from.simps simp add: title_from.simps(2) [of b c cs])
qed

lemma title_no_slash: "CHR ''/'' \<notin> set s \<Longrightarrow> CHR ''/'' \<notin> set (title s)"
  by (simp add: title_def title_from_no_slash)

lemma isalpha_no_slash: "isalpha w \<Longrightarrow> CHR ''/'' \<notin> set w"
  using slash_not_cased
  by (auto simp: isalpha_def list_all_iff char_isalpha_def)

subsection \<open>Counters\<close>

lemma keys_counter_incr: "fst ` set (counter_incr w cnt) = insert w (fst ` set cnt)"
proof (induction cnt)
  case Nil
  show ?case by simp
next
  case (Cons kc cnt)
  obtain k c where kc: "kc = (k, c)" by (cases kc)
  show ?case
  proof (cases "k = w")
    case True
    with kc show ?thesis by simp
  next
    case False
    with Cons kc show ?thesis by (simp add: insert_commute)
  qed
qed

lemma keys_fold_counter_incr:
  "fst ` set (fold counter_incr ws cnt) = set ws \<union> fst ` set cnt"
  by (induction ws arbitrary: cnt) (auto simp: keys_counter_incr)

lemma distinct_counter_incr:
  "distinct (map fst cnt) \<Longrightarrow> distinct (map fst (counter_incr w cnt))"
proof (induction cnt)
  case Nil
  then show ?case by simp
next
  case (Cons kc cnt)
  obtain k c where kc: "kc = (k, c)" by (cases kc)
  have "fst ` set (counter_incr w cnt) = insert w (fst ` set cnt)"
    by (rule keys_counter_incr)
  with Cons kc show ?case by auto
qed

lemma distinct_fold_counter_incr:
  "distinct (map fst cnt) \<Longrightarrow> distinct (map fst (fold counter_incr ws cnt))"
  by (induction ws arbitrary: cnt) (simp_all add: distinct_counter_incr)

lemma count_of_counter_incr:
  "count_of (counter_incr w cnt) v = (if v = w then Suc (count_of cnt w) else count_of cnt v)"
  by (induction cnt) (auto simp: count_of_def)

lemma count_of_fold_counter_incr:
  "count_of (fold counter_incr ws cnt) v = count_of cnt v + count_list ws v"
  by (induction ws arbitrary: cnt) (auto simp: count_of_counter_incr)

lemma counter_entry_count:
  assumes "(w, c) \<in> set (fold counter_incr ws [])"
  shows "c = count_list ws w" and "w \<in> set ws"
proof -
  have d: "distinct (map fst (fold counter_incr ws ([] :: 'a counter)))"
    by (rule distinct_fold_counter_incr) simp
  with assms have "map_of (fold counter_incr ws []) w = Some c"
    by simp
  then have "count_of (fold counter_incr ws []) w = c"
    by (simp add: count_of_def)
  moreover have "count_of ([] :: 'a counter) w = 0"
    by (simp add: count_of_def)
  ultimately show "c = count_list ws w"
    by (simp add: count_of_fold_counter_incr)
  from assms have "w \<in> fst ` set (fold counter_incr ws [])"
    by force
  then show "w \<in> set ws"
    by (simp add: keys_fold_counter_incr)
qed

lemma most_common_subset: "set (most_common n cnt) \<subseteq> set cnt"
  using set_take_subset [of n "sort_key (\<lambda>(w, c). - int c) cnt"]
  by (simp add: most_common_def)

lemma most_common_Nil: "0 < n \<Longrightarrow> most_common n cnt = [] \<longleftrightarrow> cnt = []"
  by (cases "sort_key (\<lambda>(w, c). - int c) cnt")
     (auto simp: most_common_def take_Cons' dest: arg_cong [where f = length])

lemma most_common_head_max:
  assumes "most_common n cnt = (w, c) # rest" and "(w', c') \<in> set cnt"
  shows "c' \<le> c"
proof -
  let ?f = "\<lambda>(w, c). - int (c :: nat)"
  from assms(1) obtain tl where s: "sort_key ?f cnt = (w, c) # tl"
    by (cases "sort_key ?f cnt"; cases n) (auto simp: most_common_def)
  have "sorted (map ?f (sort_key ?f cnt))"
    by (rule sorted_sort_key)
  with s have "\<forall>x \<in> set tl. ?f (w, c) \<le> ?f x"
    by simp
  moreover from assms(2) have "(w', c') \<in> set (sort_key ?f cnt)"
    by simp
  ultimately show ?thesis
    using s by auto
qed

subsection \<open>Tokens of the two label heuristics\<close>

lemma az_tokens_az:
  "list_all is_az cur \<Longrightarrow> t \<in> set (az_tokens cur s) \<Longrightarrow> list_all is_az t"
  by (induction cur s rule: az_tokens.induct) (auto split: if_splits)

lemma path_tokens_no_slash: "t \<in> set (path_tokens p) \<Longrightarrow> CHR ''/'' \<notin> set t"
proof -
  assume "t \<in> set (path_tokens p)"
  then have "t \<in> set (az_tokens [] (lower p))"
    by (simp add: path_tokens_def)
  then have "list_all is_az t"
    using az_tokens_az [of "[]" t "lower p"] by simp
  then show ?thesis
    using slash_not_cased(1) by (auto simp: list_all_iff)
qed

lemma keys_fold_paths:
  "fst ` set (fold (\<lambda>p cnt. fold counter_incr (path_tokens p) cnt) ps cnt)
     = (\<Union>p \<in> set ps. set (path_tokens p)) \<union> fst ` set cnt"
  by (induction ps arbitrary: cnt) (auto simp: keys_fold_counter_incr)

lemma fallback_image_label_no_slash: "CHR ''/'' \<notin> set (fallback_image_label image_paths)"
proof -
  let ?counts = "fold (\<lambda>p cnt. fold counter_incr (path_tokens p) cnt) (take 40 image_paths) []"
  show ?thesis
  proof (cases "most_common 1 ?counts")
    case Nil
    then show ?thesis by (simp add: fallback_image_label_def)
  next
    case (Cons tc rest)
    obtain t c where tc: "tc = (t, c)" by (cases tc)
    from Cons tc have "(t, c) \<in> set ?counts"
      using most_common_subset [of 1 ?counts] by auto
    then have "t \<in> fst ` set ?counts" by force
    then obtain p where "t \<in> set (path_tokens p)"
      by (auto simp: keys_fold_paths)
    then have "CHR ''/'' \<notin> set (title t)"
      by (simp add: path_tokens_no_slash title_no_slash)
    with Cons tc show ?thesis by (simp add: fallback_image_label_def)
  qed
qed

lemma extract_words_props:
  "w \<in> set (extract_words text) \<Longrightarrow>
     length w > 3 \<and> isalpha w \<and> w \<notin> set stopwords \<and>
     w \<in> strip strip_chars ` set (split (lower text))"
  by (auto simp: extract_words_def Let_def)

lemma fold_item_words:
  "fold (\<lambda>it cnt. case item_text fs it of
                    None \<Rightarrow> cnt
                  | Some text \<Rightarrow> counter_update (extract_words text) cnt) its cnt
     = fold counter_incr (concat (map extract_words (List.map_filter (item_text fs) its))) cnt"
  by (induction its arbitrary: cnt)
     (auto simp: List.map_filter_simps counter_update_def split: option.splits)

lemma text_word_counts_sampled:
  "text_word_counts fs items = fold counter_incr (sampled_words fs items) []"
  by (simp add: text_word_counts_def sampled_words_def fold_item_words)

lemma sampled_words_props:
  "w \<in> set (sampled_words fs items) \<Longrightarrow> length w > 3 \<and> isalpha w \<and> w \<notin> set stopwords"
  by (auto simp: sampled_words_def dest: extract_words_props)

lemma text_label_cases:
  "(sampled_words fs items = [] \<and> get_text_cluster_label fs items = ''misc'') \<or>
   (\<exists>w \<in> set (sampled_words fs items).
      get_text_cluster_label fs items = title w \<and>
      (\<forall>w'. count_list (sampled_words fs items) w' \<le> count_list (sampled_words fs items) w))"
proof (cases "most_common 3 (text_word_counts fs items)")
  case Nil
  then have "text_word_counts fs items = []"
    by (simp add: most_common_Nil)
  then have "fst ` set (fold counter_incr (sampled_words fs items) []) = {}"
    by (simp add: text_word_counts_sampled)
  then have "sampled_words fs items = []"
    by (simp add: keys_fold_counter_incr)
  with Nil show ?thesis
    by (simp add: get_text_cluster_label_def)
next
  case (Cons wc rest)
  let ?ws = "sampled_words fs items"
  obtain w c where wc: "wc = (w, c)" by (cases wc)
  from Cons wc have mem: "(w, c) \<in> set (fold counter_incr ?ws [])"
    using most_common_subset [of 3 "text_word_counts fs items"]
    by (auto simp: text_word_counts_sampled)
  then have c: "c = count_list ?ws w" and w: "w \<in> set ?ws"
    by (rule counter_entry_count)+
  have "count_list ?ws w' \<le> count_list ?ws w" for w'
  proof (cases "w' \<in> set ?ws")
    case True
    then have "w' \<in> fst ` set (fold counter_incr ?ws [])"
      by (simp add: keys_fold_counter_incr)
    then obtain c' where m': "(w', c') \<in> set (fold counter_incr ?ws [])"
      by force
    then have "c' = count_list ?ws w'"
      by (rule counter_entry_count)
    moreover have "c' \<le> c"
      using most_common_head_max [of 3 "text_word_counts fs items" w c rest w' c'] Cons wc m'
      by (simp add: text_word_counts_sampled)
    ultimately show ?thesis using c by simp
  next
    case False
    then show ?thesis by (simp add: count_list_0_iff)
  qed
  moreover have "get_text_cluster_label fs items = title w"
    using Cons wc by (simp add: get_text_cluster_label_def)
  ultimately show ?thesis using w by blast
qed


lemma image_labels_no_slash: "\<forall>l \<in> set IMAGE_LABELS. CHR ''/'' \<notin> set l"
  by (simp add: IMAGE_LABELS_def)

lemma image_label_no_slash:
  assumes "get_image_semantic_label h model processor image_paths = Inr l"
  shows "CHR ''/'' \<notin> set l"
proof (cases "l = fallback_image_label image_paths")
  case True
  then show ?thesis by (simp add: fallback_image_label_no_slash)
next
  case False
  with assms obtain clip i rest where
    "model = Some clip" and
    top: "clip (filter (can_open h) (take 5 image_paths)) = i # rest" and
    ok: "\<not> list_ex (\<lambda>i. \<not> i < length IMAGE_LABELS) (i # rest)" and
    l: "l = title (IMAGE_LABELS ! i)"
    by (auto simp: get_image_semantic_label_def Let_def
             split: if_splits option.splits list.splits)
  from ok have "i < length IMAGE_LABELS" by simp
  then have "IMAGE_LABELS ! i \<in> set IMAGE_LABELS" by (rule nth_mem)
  with image_labels_no_slash l show ?thesis
    by (simp add: title_no_slash)
qed

lemma text_label_no_slash: "CHR ''/'' \<notin> set (get_text_cluster_label fs items)"
proof -
  from text_label_cases [of fs items] show ?thesis
  proof
    assume "sampled_words fs items = [] \<and> get_text_cluster_label fs items = ''misc''"
    then show ?thesis by simp
  next
    assume "\<exists>w \<in> set (sampled_words fs items).
      get_text_cluster_label fs items = title w \<and>
      (\<forall>w'. count_list (sampled_words fs items) w' \<le> count_list (sampled_words fs items) w)"
    then obtain w where "w \<in> set (sampled_words fs items)"
      "get_text_cluster_label fs items = title w" by blast
    then show ?thesis
      using sampled_words_props [of w fs items]
      by (simp add: isalpha_no_slash title_no_slash)
  qed
qed

subsection \<open>The sample sentence\<close>






subsection \<open>C4: image labels when the classifier is unavailable\<close>

text \<open>
  C4 says that \<open>get_image_semantic_label\<close> returns the filename fallback whenever the
  model and processor are \<^verbatim>\<open>None\<close>. With both \<^verbatim>\<open>None\<close>, one member image that opens and
  \<^verbatim>\<open>torch\<close> importable, the function gets past both fallback exits and calls the
  \<^verbatim>\<open>None\<close> processor: it ends in a \<^verbatim>\<open>TypeError\<close>, not in a label.
\<close>

theorem C4_missing_model_raises:
  "get_image_semantic_label \<lparr>can_open = (\<lambda>p. True), torch_importable = True\<rparr>
     None None [''a.png''] = Inl TypeError"
  by (simp add: get_image_semantic_label_def)

subsection \<open>C6: the text label is the most frequent surviving word\<close>



subsection \<open>C8: no label contains the compound separator\<close>

text \<open>
  C8: whatever label \<open>get_image_semantic_label\<close> returns (from the zero-shot vocabulary or
  from the filename fallback), the label of \<open>_fallback_image_label\<close> and the label of
  \<open>get_text_cluster_label\<close> never contain the character \<^verbatim>\<open>/\<close>.
\<close>

theorem C8_labels_have_no_slash:
  "(\<forall>l. get_image_semantic_label h model processor image_paths = Inr l \<longrightarrow> CHR ''/'' \<notin> set l) \<and>
   CHR ''/'' \<notin> set (fallback_image_label image_paths) \<and>
   CHR ''/'' \<notin> set (get_text_cluster_label fs items)"
  using image_label_no_slash [of h model processor image_paths]
  by (simp add: fallback_image_label_no_slash text_label_no_slash)

theorem C8_labels_have_no_slash_witness:
  "get_image_semantic_label \<lparr>can_open = (\<lambda>p. True), torch_importable = True\<rparr>
     (Some (\<lambda>images. [20])) (Some ()) [''shots/ui/a.png''] = Inr ''Ui Design'' \<and>
   CHR ''/'' \<notin> set ''Ui Design'' \<and>
   fallback_image_label [''shots/ui/a.png''] = ''Shots'' \<and>
   CHR ''/'' \<notin> set (fallback_image_label [''shots/ui/a.png'']) \<and>
   get_text_cluster_label Map.empty
     [\<lparr>item_id = ''n4'', content = ''n4.md'', timestamp = 5,
        preview = Some ''input/output notes'', cluster = 0\<rparr>] = ''Notes''"
proof -
  have a: "get_image_semantic_label \<lparr>can_open = (\<lambda>p. True), torch_importable = True\<rparr>
     (Some (\<lambda>images. [20])) (Some ()) [''shots/ui/a.png''] = Inr ''Ui Design''"
    by code_simp
  have b: "fallback_image_label [''shots/ui/a.png''] = ''Shots''"
    by code_simp
  have c: "get_text_cluster_label Map.empty
     [\<lparr>item_id = ''n4'', content = ''n4.md'', timestamp = 5,
        preview = Some ''input/output notes'', cluster = 0\<rparr>] = ''Notes''"
    by code_simp
  from C8_labels_have_no_slash [of "\<lparr>can_open = (\<lambda>p. True), torch_importable = True\<rparr>"
      "Some (\<lambda>images. [20])" "Some ()" "[''shots/ui/a.png'']"
      Map.empty "[\<lparr>item_id = ''n4'', content = ''n4.md'', timestamp = 5,
        preview = Some ''input/output notes'', cluster = 0\<rparr>]"] a b c
  show ?thesis by simp
qed

subsection \<open>Grouping items by cluster\<close>

lemma keys_group_append: "fst ` set (group_append k it g) = insert k (fst ` set g)"
proof (induction g)
  case Nil
  show ?case by simp
next
  case (Cons e g)
  obtain k' its where e: "e = (k', its)" by (cases e)
  show ?case
  proof (cases "k' = k")
    case True
    with e show ?thesis by simp
  next
    case False
    with Cons e show ?thesis by (simp add: insert_commute)
  qed
qed

lemma distinct_group_append:
  "distinct (map fst g) \<Longrightarrow> distinct (map fst (group_append k it g))"
proof (induction g)
  case Nil
  then show ?case by simp
next
  case (Cons e g)
  obtain k' its where e: "e = (k', its)" by (cases e)
  have "fst ` set (group_append k it g) = insert k (fst ` set g)"
    by (rule keys_group_append)
  with Cons e show ?case by auto
qed

lemma bucket_group_append:
  "bucket (group_append k it g) j = (if j = k then bucket g k @ [it] else bucket g j)"
  by (induction g) (auto simp: bucket_def)

lemma keys_fold_group:
  "fst ` set (fold (\<lambda>it g. if cluster it \<ge> 0 then group_append (cluster it) it g else g) items g)
     = fst ` set g \<union> {k. 0 \<le> k \<and> k \<in> cluster ` set items}"
  by (induction items arbitrary: g) (auto simp: keys_group_append)

lemma distinct_fold_group:
  "distinct (map fst g) \<Longrightarrow>
   distinct (map fst (fold (\<lambda>it g. if cluster it \<ge> 0 then group_append (cluster it) it g else g)
                        items g))"
  by (induction items arbitrary: g) (simp_all add: distinct_group_append)

lemma bucket_fold_group:
  "bucket (fold (\<lambda>it g. if cluster it \<ge> 0 then group_append (cluster it) it g else g) items g) k
     = bucket g k @ filter (\<lambda>it. cluster it = k \<and> 0 \<le> k) items"
  by (induction items arbitrary: g) (auto simp: bucket_group_append)

lemma group_keys:
  "fst ` set (group_by_cluster items) = {k. 0 \<le> k \<and> k \<in> cluster ` set items}"
  by (simp add: group_by_cluster_def keys_fold_group)

lemma group_distinct: "distinct (map fst (group_by_cluster items))"
  by (simp add: group_by_cluster_def distinct_fold_group)

lemma group_entry:
  assumes "(k, its) \<in> set (group_by_cluster items)"
  shows "0 \<le> k" and "its = filter (\<lambda>it. cluster it = k) items" and "its \<noteq> []"
proof -
  from assms have "k \<in> fst ` set (group_by_cluster items)"
    by force
  then have k: "0 \<le> k" and mem: "k \<in> cluster ` set items"
    by (simp_all add: group_keys)
  from assms group_distinct [of items] have "map_of (group_by_cluster items) k = Some its"
    by simp
  then have "bucket (group_by_cluster items) k = its"
    by (simp add: bucket_def)
  moreover have "bucket ([] :: (int \<times> item list) list) k = []"
    by (simp add: bucket_def)
  ultimately show its: "its = filter (\<lambda>it. cluster it = k) items"
    using k by (simp add: group_by_cluster_def bucket_fold_group)
  from mem show "its \<noteq> []"
    unfolding its by (auto simp: filter_empty_conv)
  from k show "0 \<le> k" .
qed

subsection \<open>The cluster map and the species loop\<close>

lemma find_snoc:
  "find P (xs @ [x]) = (case find P xs of None \<Rightarrow> (if P x then Some x else None) | Some y \<Rightarrow> Some y)"
  by (induction xs) simp_all

lemma find_SomeD: "find P xs = Some x \<Longrightarrow> x \<in> set xs \<and> P x"
  by (induction xs) (auto split: if_splits)

lemma fold_cluster_map:
  "fold (\<lambda>c m. m(c_id c \<mapsto> c)) cs m k
     = (case find (\<lambda>c. c_id c = k) (rev cs) of None \<Rightarrow> m k | Some c \<Rightarrow> Some c)"
  by (induction cs arbitrary: m) (auto simp: find_snoc split: option.splits)

lemma cluster_map_find:
  "cluster_map clusters k = find (\<lambda>c. c_id c = k) (rev clusters)"
  by (simp add: cluster_map_def fold_cluster_map split: option.splits)

lemma cluster_map_Some:
  "cluster_map clusters k = Some c \<Longrightarrow> c \<in> set clusters \<and> c_id c = k"
  by (auto simp: cluster_map_find dest: find_SomeD)

lemma cluster_map_dom: "cluster_map clusters k \<noteq> None \<longleftrightarrow> k \<in> c_id ` set clusters"
  by (auto simp: cluster_map_find find_None_iff)

lemma fold_species_step:
  "fold (species_step month cmap) g acc
     = acc @ concat (map (\<lambda>(k, its). case cmap k of None \<Rightarrow> []
                                       | Some c \<Rightarrow> [make_species month k c its]) g)"
  by (induction g arbitrary: acc) (auto simp: species_step_def split: option.splits)

lemma sp_cluster_id_make [simp]: "sp_cluster_id (make_species month k c its) = k"
  by (simp add: make_species_def Let_def)

lemma species_cluster_ids:
  "map sp_cluster_id (fold (species_step month cmap) g [])
     = filter (\<lambda>k. cmap k \<noteq> None) (map fst g)"
  unfolding fold_species_step
  by (induction g) (auto split: option.splits)

lemma species_origin:
  assumes "s \<in> set (fold (species_step month cmap) g [])"
  shows "\<exists>k its c. (k, its) \<in> set g \<and> cmap k = Some c \<and> s = make_species month k c its"
proof -
  from assms obtain k its where e: "(k, its) \<in> set g"
    and s: "s \<in> set (case cmap k of None \<Rightarrow> [] | Some c \<Rightarrow> [make_species month k c its])"
    unfolding fold_species_step by auto
  from s obtain c where "cmap k = Some c" "s = make_species month k c its"
    by (cases "cmap k") auto
  with e show ?thesis by blast
qed

lemma generate_species_ids:
  "distinct (map sp_cluster_id (generate_species month items clusters))"
  "set (map sp_cluster_id (generate_species month items clusters))
     = {k. 0 \<le> k \<and> k \<in> cluster ` set items} \<inter> c_id ` set clusters"
proof -
  let ?raw = "fold (species_step month (cluster_map clusters)) (group_by_cluster items) []"
  have ids: "map sp_cluster_id ?raw
      = filter (\<lambda>k. cluster_map clusters k \<noteq> None) (map fst (group_by_cluster items))"
    by (rule species_cluster_ids)
  have perm: "mset (map sp_cluster_id (sort_key sp_min_timestamp ?raw)) = mset (map sp_cluster_id ?raw)"
    by simp
  have "distinct (map sp_cluster_id ?raw)"
    unfolding ids using group_distinct [of items] by (rule distinct_filter)
  with perm have "distinct (map sp_cluster_id (sort_key sp_min_timestamp ?raw))"
    by (metis mset_eq_imp_distinct_iff)
  then show "distinct (map sp_cluster_id (generate_species month items clusters))"
    by (simp add: generate_species_def)
  have "set (map sp_cluster_id (sort_key sp_min_timestamp ?raw)) = set (map sp_cluster_id ?raw)"
    using perm by (rule mset_eq_setD)
  also have "\<dots> = {k \<in> fst ` set (group_by_cluster items). cluster_map clusters k \<noteq> None}"
    unfolding ids by auto
  also have "\<dots> = {k \<in> fst ` set (group_by_cluster items). k \<in> c_id ` set clusters}"
    by (simp only: cluster_map_dom)
  also have "\<dots> = {k. 0 \<le> k \<and> k \<in> cluster ` set items} \<inter> c_id ` set clusters"
    unfolding group_keys by blast
  finally show "set (map sp_cluster_id (generate_species month items clusters))
     = {k. 0 \<le> k \<and> k \<in> cluster ` set items} \<inter> c_id ` set clusters"
    by (simp add: generate_species_def)
qed

lemma generate_species_member:
  assumes "s \<in> set (generate_species month items clusters)"
  shows "\<exists>c. cluster_map clusters (sp_cluster_id s) = Some c \<and>
           0 \<le> sp_cluster_id s \<and>
           filter (\<lambda>it. cluster it = sp_cluster_id s) items \<noteq> [] \<and>
           s = make_species month (sp_cluster_id s) c
                 (filter (\<lambda>it. cluster it = sp_cluster_id s) items)"
proof -
  from assms have "s \<in> set (fold (species_step month (cluster_map clusters))
                              (group_by_cluster items) [])"
    by (simp add: generate_species_def)
  then obtain k its c where e: "(k, its) \<in> set (group_by_cluster items)"
    and c: "cluster_map clusters k = Some c" and s: "s = make_species month k c its"
    by (blast dest: species_origin)
  from s have "sp_cluster_id s = k" by simp
  with group_entry [OF e] c s show ?thesis by auto
qed

lemma generate_species_sorted:
  "sorted (map sp_min_timestamp (generate_species month items clusters))"
  by (simp add: generate_species_def sorted_sort_key)

subsection \<open>C5: the species records\<close>

text \<open>
  C5, as stated, promises a species for every cluster id found on a non-noise item. An item
  of cluster 0 with an empty clusters list yields no species at all: the loop skips an id
  that is not a key of \<^verbatim>\<open>cluster_map\<close>.
\<close>

theorem C5_species_for_every_id_counterexample:
  "cluster ` set [\<lparr>item_id = ''a'', content = ''a.png'', timestamp = 10, preview = None,
                     cluster = 0\<rparr>] = {0} \<and>
   generate_species (\<lambda>ts. ''1970-01'')
     [\<lparr>item_id = ''a'', content = ''a.png'', timestamp = 10, preview = None, cluster = 0\<rparr>] []
     = []"
  by (simp add: generate_species_def group_by_cluster_def species_step_def cluster_map_def)

text \<open>
  C5 (amended): \<open>generate_species\<close> emits exactly one species for each cluster id that occurs
  on an item with cluster \<open>\<ge> 0\<close> and is the id of a record of the clusters list. For each
  species, with its members being the items of that cluster id in input order: the id is
  \<^verbatim>\<open>species_<cluster_id>\<close>, name and centroid are those of the record \<^verbatim>\<open>cluster_map\<close> holds for
  the id, the minimum and maximum timestamps are taken over the members, the item ids are
  the members' ids, the count is the length of that list, and the date range is the single
  month when the months of minimum and maximum coincide and \<^verbatim>\<open>start -> end\<close> otherwise. The
  list is sorted non-decreasing by minimum timestamp.
\<close>

theorem C5_generate_species:
  "distinct (map sp_cluster_id (generate_species month items clusters)) \<and>
   set (map sp_cluster_id (generate_species month items clusters))
     = {k. 0 \<le> k \<and> k \<in> cluster ` set items} \<inter> c_id ` set clusters \<and>
   (\<forall>s \<in> set (generate_species month items clusters).
      (let members = filter (\<lambda>it. cluster it = sp_cluster_id s) items;
           lo = Min (timestamp ` set members);
           hi = Max (timestamp ` set members)
       in members \<noteq> [] \<and>
          sp_id s = ''species_'' @ str_int (sp_cluster_id s) \<and>
          (\<exists>c. cluster_map clusters (sp_cluster_id s) = Some c \<and> c \<in> set clusters \<and>
               c_id c = sp_cluster_id s \<and> sp_name s = c_label c \<and>
               sp_centroid s = c_centroid c) \<and>
          sp_min_timestamp s = lo \<and> sp_max_timestamp s = hi \<and>
          sp_item_ids s = map item_id members \<and>
          sp_count s = length (sp_item_ids s) \<and>
          sp_date_range s
            = (if month lo = month hi then month lo else month lo @ arrow @ month hi))) \<and>
   sorted (map sp_min_timestamp (generate_species month items clusters))"
proof (intro conjI ballI)
  show "distinct (map sp_cluster_id (generate_species month items clusters))"
    by (rule generate_species_ids)
  show "set (map sp_cluster_id (generate_species month items clusters))
     = {k. 0 \<le> k \<and> k \<in> cluster ` set items} \<inter> c_id ` set clusters"
    by (rule generate_species_ids)
  show "sorted (map sp_min_timestamp (generate_species month items clusters))"
    by (rule generate_species_sorted)
next
  fix s assume "s \<in> set (generate_species month items clusters)"
  then obtain c where c: "cluster_map clusters (sp_cluster_id s) = Some c"
    and ne: "filter (\<lambda>it. cluster it = sp_cluster_id s) items \<noteq> []"
    and s: "s = make_species month (sp_cluster_id s) c
                  (filter (\<lambda>it. cluster it = sp_cluster_id s) items)"
    using generate_species_member [of s month items clusters] by blast
  define k where "k = sp_cluster_id s"
  define members where "members = filter (\<lambda>it. cluster it = k) items"
  from s have s': "s = make_species month k c members"
    by (simp add: k_def members_def)
  from c have cm: "c \<in> set clusters \<and> c_id c = k"
    unfolding k_def by (rule cluster_map_Some)
  from c have c': "cluster_map clusters k = Some c"
    by (simp add: k_def)
  from ne have ne': "members \<noteq> []"
    by (simp add: members_def k_def)
  have "members \<noteq> [] \<and>
        sp_id s = ''species_'' @ str_int k \<and>
        (\<exists>c. cluster_map clusters k = Some c \<and> c \<in> set clusters \<and>
             c_id c = k \<and> sp_name s = c_label c \<and> sp_centroid s = c_centroid c) \<and>
        sp_min_timestamp s = Min (timestamp ` set members) \<and>
        sp_max_timestamp s = Max (timestamp ` set members) \<and>
        sp_item_ids s = map item_id members \<and>
        sp_count s = length (sp_item_ids s) \<and>
        sp_date_range s
          = (if month (Min (timestamp ` set members)) = month (Max (timestamp ` set members))
             then month (Min (timestamp ` set members))
             else month (Min (timestamp ` set members)) @ arrow
                    @ month (Max (timestamp ` set members)))"
    using ne' c' cm unfolding s'
    by (simp add: make_species_def Let_def)
  then show "let members = filter (\<lambda>it. cluster it = sp_cluster_id s) items;
           lo = Min (timestamp ` set members);
           hi = Max (timestamp ` set members)
       in members \<noteq> [] \<and>
          sp_id s = ''species_'' @ str_int (sp_cluster_id s) \<and>
          (\<exists>c. cluster_map clusters (sp_cluster_id s) = Some c \<and> c \<in> set clusters \<and>
               c_id c = sp_cluster_id s \<and> sp_name s = c_label c \<and>
               sp_centroid s = c_centroid c) \<and>
          sp_min_timestamp s = lo \<and> sp_max_timestamp s = hi \<and>
          sp_item_ids s = map item_id members \<and>
          sp_count s = length (sp_item_ids s) \<and>
          sp_date_range s
            = (if month lo = month hi then month lo else month lo @ arrow @ month hi)"
    unfolding Let_def k_def members_def .
qed

theorem C5_generate_species_witness:
  "generate_species (\<lambda>ts. if ts < 100 then ''1970-01'' else ''1970-02'')
     [\<lparr>item_id = ''a'', content = ''a.png'', timestamp = 50, preview = None, cluster = 1\<rparr>,
      \<lparr>item_id = ''b'', content = ''b.png'', timestamp = 10, preview = None, cluster = 0\<rparr>,
      \<lparr>item_id = ''c'', content = ''c.png'', timestamp = 150, preview = None, cluster = 1\<rparr>,
      \<lparr>item_id = ''d'', content = ''d.png'', timestamp = 20, preview = None, cluster = - 1\<rparr>]
     [\<lparr>c_id = 0, c_label = ''Map'', c_centroid = (0, 0), c_size = 1\<rparr>,
      \<lparr>c_id = 1, c_label = ''Poster'', c_centroid = (1, 2), c_size = 2\<rparr>]
   = [\<lparr>sp_id = ''species_0'', sp_cluster_id = 0, sp_name = ''Map'',
        sp_date_range = ''1970-01'', sp_min_timestamp = 10, sp_max_timestamp = 10,
        sp_centroid = (0, 0), sp_count = 1, sp_item_ids = [''b'']\<rparr>,
      \<lparr>sp_id = ''species_1'', sp_cluster_id = 1, sp_name = ''Poster'',
        sp_date_range = ''1970-01'' @ arrow @ ''1970-02'', sp_min_timestamp = 50,
        sp_max_timestamp = 150, sp_centroid = (1, 2), sp_count = 2,
        sp_item_ids = [''a'', ''c'']\<rparr>] \<and>
   sorted (map sp_min_timestamp
     (generate_species (\<lambda>ts. if ts < 100 then ''1970-01'' else ''1970-02'')
       [\<lparr>item_id = ''a'', content = ''a.png'', timestamp = 50, preview = None, cluster = 1\<rparr>,
        \<lparr>item_id = ''b'', content = ''b.png'', timestamp = 10, preview = None, cluster = 0\<rparr>,
        \<lparr>item_id = ''c'', content = ''c.png'', timestamp = 150, preview = None, cluster = 1\<rparr>,
        \<lparr>item_id = ''d'', content = ''d.png'', timestamp = 20, preview = None, cluster = - 1\<rparr>]
       [\<lparr>c_id = 0, c_label = ''Map'', c_centroid = (0, 0), c_size = 1\<rparr>,
        \<lparr>c_id = 1, c_label = ''Poster'', c_centroid = (1, 2), c_size = 2\<rparr>]))"
proof -
  let ?month = "\<lambda>ts :: int. if ts < 100 then ''1970-01'' else ''1970-02''"
  let ?items = "[\<lparr>item_id = ''a'', content = ''a.png'', timestamp = 50, preview = None, cluster = 1\<rparr>,
      \<lparr>item_id = ''b'', content = ''b.png'', timestamp = 10, preview = None, cluster = 0\<rparr>,
      \<lparr>item_id = ''c'', content = ''c.png'', timestamp = 150, preview = None, cluster = 1\<rparr>,
      \<lparr>item_id = ''d'', content = ''d.png'', timestamp = 20, preview = None, cluster = - 1\<rparr>]"
  let ?clusters = "[\<lparr>c_id = 0, c_label = ''Map'', c_centroid = (0, 0), c_size = 1\<rparr>,
      \<lparr>c_id = 1, c_label = ''Poster'', c_centroid = (1, 2), c_size = 2\<rparr>]"
  have "str_int 0 = ''0''" "str_int 1 = ''1''"
    by code_simp+
  then have ev: "generate_species ?month ?items ?clusters
   = [\<lparr>sp_id = ''species_0'', sp_cluster_id = 0, sp_name = ''Map'',
        sp_date_range = ''1970-01'', sp_min_timestamp = 10, sp_max_timestamp = 10,
        sp_centroid = (0, 0), sp_count = 1, sp_item_ids = [''b'']\<rparr>,
      \<lparr>sp_id = ''species_1'', sp_cluster_id = 1, sp_name = ''Poster'',
        sp_date_range = ''1970-01'' @ arrow @ ''1970-02'', sp_min_timestamp = 50,
        sp_max_timestamp = 150, sp_centroid = (1, 2), sp_count = 2,
        sp_item_ids = [''a'', ''c'']\<rparr>]"
    by (simp add: generate_species_def group_by_cluster_def species_step_def cluster_map_def
        make_species_def)
  from C5_generate_species [of ?month ?items ?clusters]
  have "sorted (map sp_min_timestamp (generate_species ?month ?items ?clusters))"
    by blast
  with ev show ?thesis by (intro conjI)
qed

subsection \<open>C10: cluster ids without a cluster record are skipped\<close>

text \<open>
  C10: \<open>generate_species\<close> always returns a list (the branch for an id missing from the
  clusters list keeps the list built so far). The cluster ids of the species are exactly the
  ids that occur on an item with cluster \<open>\<ge> 0\<close> and in the clusters list, each once, so the
  list is at most as long as the number of distinct non-negative ids on the items, and
  shorter as soon as one of them has no record.
\<close>

theorem C10_missing_cluster_skipped:
  "set (map sp_cluster_id (generate_species month items clusters))
     = {k. 0 \<le> k \<and> k \<in> cluster ` set items} \<inter> c_id ` set clusters \<and>
   length (generate_species month items clusters)
     = card ({k. 0 \<le> k \<and> k \<in> cluster ` set items} \<inter> c_id ` set clusters) \<and>
   length (generate_species month items clusters)
     \<le> card {k. 0 \<le> k \<and> k \<in> cluster ` set items} \<and>
   (\<forall>k. 0 \<le> k \<and> k \<in> cluster ` set items \<and> k \<notin> c_id ` set clusters \<longrightarrow>
        length (generate_species month items clusters)
          < card {k. 0 \<le> k \<and> k \<in> cluster ` set items})"
proof -
  let ?A = "{k. 0 \<le> k \<and> k \<in> cluster ` set items}"
  let ?B = "c_id ` set clusters"
  let ?res = "generate_species month items clusters"
  have ids: "set (map sp_cluster_id ?res) = ?A \<inter> ?B"
    by (rule generate_species_ids)
  have "card (set (map sp_cluster_id ?res)) = length (map sp_cluster_id ?res)"
    using generate_species_ids(1) [of month items clusters] by (rule distinct_card)
  with ids have len: "length ?res = card (?A \<inter> ?B)"
    by simp
  have fin: "finite ?A"
    by simp
  then have le: "card (?A \<inter> ?B) \<le> card ?A"
    by (intro card_mono) auto
  have lt: "card (?A \<inter> ?B) < card ?A" if "0 \<le> k \<and> k \<in> cluster ` set items \<and> k \<notin> ?B" for k
  proof -
    from that have "?A \<inter> ?B \<subset> ?A" by blast
    with fin show ?thesis by (rule psubset_card_mono)
  qed
  from ids len le lt show ?thesis by auto
qed

theorem C10_missing_cluster_skipped_witness:
  "generate_species (\<lambda>ts. ''1970-01'')
     [\<lparr>item_id = ''a'', content = ''a.png'', timestamp = 30, preview = None, cluster = 0\<rparr>,
      \<lparr>item_id = ''b'', content = ''b.png'', timestamp = 10, preview = None, cluster = 7\<rparr>]
     [\<lparr>c_id = 0, c_label = ''Map'', c_centroid = (0, 0), c_size = 1\<rparr>]
   = [\<lparr>sp_id = ''species_0'', sp_cluster_id = 0, sp_name = ''Map'',
        sp_date_range = ''1970-01'', sp_min_timestamp = 30, sp_max_timestamp = 30,
        sp_centroid = (0, 0), sp_count = 1, sp_item_ids = [''a'']\<rparr>] \<and>
   length (generate_species (\<lambda>ts. ''1970-01'')
     [\<lparr>item_id = ''a'', content = ''a.png'', timestamp = 30, preview = None, cluster = 0\<rparr>,
      \<lparr>item_id = ''b'', content = ''b.png'', timestamp = 10, preview = None, cluster = 7\<rparr>]
     [\<lparr>c_id = 0, c_label = ''Map'', c_centroid = (0, 0), c_size = 1\<rparr>])
   < card {k. 0 \<le> k \<and> k \<in> cluster ` set
     [\<lparr>item_id = ''a'', content = ''a.png'', timestamp = 30, preview = None, cluster = 0\<rparr>,
      \<lparr>item_id = ''b'', content = ''b.png'', timestamp = 10, preview = None, cluster = 7\<rparr>]}"
proof -
  let ?month = "\<lambda>ts :: int. ''1970-01''"
  let ?items = "[\<lparr>item_id = ''a'', content = ''a.png'', timestamp = 30, preview = None, cluster = 0\<rparr>,
      \<lparr>item_id = ''b'', content = ''b.png'', timestamp = 10, preview = None, cluster = 7\<rparr>]"
  let ?clusters = "[\<lparr>c_id = 0, c_label = ''Map'', c_centroid = (0, 0), c_size = 1\<rparr>]"
  have "str_int 0 = ''0''"
    by code_simp
  then have ev: "generate_species ?month ?items ?clusters
   = [\<lparr>sp_id = ''species_0'', sp_cluster_id = 0, sp_name = ''Map'',
        sp_date_range = ''1970-01'', sp_min_timestamp = 30, sp_max_timestamp = 30,
        sp_centroid = (0, 0), sp_count = 1, sp_item_ids = [''a'']\<rparr>]"
    by (simp add: generate_species_def group_by_cluster_def species_step_def cluster_map_def
        make_species_def)
  have miss: "(0::int) \<le> 7 \<and> 7 \<in> cluster ` set ?items \<and> 7 \<notin> c_id ` set ?clusters"
    by simp
  from C10_missing_cluster_skipped [of ?month ?items ?clusters] miss
  have "length (generate_species ?month ?items ?clusters)
          < card {k. 0 \<le> k \<and> k \<in> cluster ` set ?items}"
    by blast
  with ev show ?thesis by (intro conjI)
qed

subsection \<open>Clustering\<close>

lemma collect_Inr:
  "collect f xs = Inr ys \<Longrightarrow> list_all2 (\<lambda>x y. f x = Inr y) xs ys"
  by (induction xs arbitrary: ys) (auto split: sum.splits)

lemma collect_total:
  "\<forall>x \<in> set xs. \<exists>y. f x = Inr y \<Longrightarrow> \<exists>ys. collect f xs = Inr ys"
  by (induction xs) (auto split: sum.splits)

lemma unique_labels_set: "set (unique_labels labels) = set labels - {- 1}"
  by (auto simp: unique_labels_def)

lemma unique_labels_distinct: "distinct (unique_labels labels)"
  by (simp add: unique_labels_def)

lemma unique_labels_sorted: "sorted (unique_labels labels)"
  by (simp add: unique_labels_def)

lemma filter_upt_set:
  "sum_list (map f (filter Q [0..<n])) = sum f {i. i < n \<and> Q i}"
proof -
  have "sum_list (map f (filter Q [0..<n])) = sum f (set (filter Q [0..<n]))"
    by (rule sum_list_distinct_conv_sum_set) simp
  also have "set (filter Q [0..<n]) = {i. i < n \<and> Q i}"
    by auto
  finally show ?thesis .
qed

lemma length_filter_upt: "length (filter Q [0..<n]) = card {i. i < n \<and> Q i}"
proof -
  have "length (filter Q [0..<n]) = card (set (filter Q [0..<n]))"
    by (rule distinct_card [symmetric]) simp
  also have "set (filter Q [0..<n]) = {i. i < n \<and> Q i}"
    by auto
  finally show ?thesis .
qed

lemma zip_as_indices:
  "length xs = length ys \<Longrightarrow> zip xs ys = map (\<lambda>i. (xs ! i, ys ! i)) [0..<length xs]"
  by (rule nth_equalityI) simp_all

lemma select_mask_indices:
  assumes "length labels = length rows"
  shows "select_mask (map (\<lambda>l. l = k) labels) rows
           = map (\<lambda>i. rows ! i) (filter (\<lambda>i. labels ! i = k) [0..<length labels])"
proof -
  have "zip (map (\<lambda>l. l = k) labels) rows
          = map (\<lambda>i. (map (\<lambda>l. l = k) labels ! i, rows ! i)) [0..<length labels]"
    using zip_as_indices [of "map (\<lambda>l. l = k) labels" rows] assms by simp
  also have "\<dots> = map (\<lambda>i. (labels ! i = k, rows ! i)) [0..<length labels]"
    by simp
  finally show ?thesis
    by (simp add: select_mask_def filter_map o_def)
qed

lemma members_count: "length (filter (\<lambda>l. l = k) labels) = card (members labels k)"
  unfolding members_def by (rule length_filter_conv_card)

lemma count_list_members: "count_list labels k = card (members labels k)"
proof -
  have "count_list labels k = length (filter (\<lambda>l. l = k) labels)"
    by (induction labels) simp_all
  then show ?thesis by (simp only: members_count)
qed

lemma mask_count:
  "length (filter id (map (\<lambda>l. l = k) labels)) = card (members labels k)"
proof -
  have "filter id (map (\<lambda>l. l = k) labels) = map (\<lambda>l. l = k) (filter (\<lambda>l. l = k) labels)"
    by (simp add: filter_map o_def)
  then have "length (filter id (map (\<lambda>l. l = k) labels)) = length (filter (\<lambda>l. l = k) labels)"
    by simp
  then show ?thesis by (simp only: members_count)
qed

lemma mean_of_members:
  assumes "length labels = length coords"
  shows "mean_axis0 (select_mask (map (\<lambda>l. l = k) labels) coords)
           = ((\<Sum>i \<in> members labels k. fst (coords ! i)) / real (card (members labels k)),
              (\<Sum>i \<in> members labels k. snd (coords ! i)) / real (card (members labels k)))"
  unfolding mean_axis0_def select_mask_indices [OF assms] members_def
  by (simp add: o_def filter_upt_set length_filter_upt)

lemma cluster_record_fields:
  assumes "cluster_record h fs mode model processor coords items labels k = Inr c"
    and "length labels = length coords"
  shows "c_id c = k" and "c_size c = card (members labels k)"
    and "c_centroid c
           = ((\<Sum>i \<in> members labels k. fst (coords ! i)) / real (card (members labels k)),
              (\<Sum>i \<in> members labels k. snd (coords ! i)) / real (card (members labels k)))"
    and "c_label c \<in> {l. cluster_label h fs mode model processor
                            (map (\<lambda>i. items ! i) (filter (\<lambda>i. labels ! i = k) [0..<length items]))
                          = Inr l}"
proof -
  from assms(1) obtain l where
    l: "cluster_label h fs mode model processor
          (map (\<lambda>i. items ! i)
             (filter (\<lambda>i. map (\<lambda>l. l = k) labels ! i) [0..<length items])) = Inr l"
    and le: "length items \<le> length labels"
    and c: "c = \<lparr>c_id = k, c_label = l,
                 c_centroid = mean_axis0 (select_mask (map (\<lambda>l. l = k) labels) coords),
                 c_size = length (filter id (map (\<lambda>l. l = k) labels))\<rparr>"
    by (auto simp: cluster_record_def Let_def split: if_splits sum.splits)
  from c show "c_id c = k" by simp
  from c have "c_size c = length (filter id (map (\<lambda>l. l = k) labels))" by simp
  then show "c_size c = card (members labels k)" by (simp only: mask_count)
  from c show "c_centroid c
           = ((\<Sum>i \<in> members labels k. fst (coords ! i)) / real (card (members labels k)),
              (\<Sum>i \<in> members labels k. snd (coords ! i)) / real (card (members labels k)))"
    by (simp add: mean_of_members [OF assms(2)])
  have "filter (\<lambda>i. map (\<lambda>l. l = k) labels ! i) [0..<length items]
          = filter (\<lambda>i. labels ! i = k) [0..<length items]"
    using le by (intro filter_cong) auto
  with l c show "c_label c \<in> {l. cluster_label h fs mode model processor
                            (map (\<lambda>i. items ! i) (filter (\<lambda>i. labels ! i = k) [0..<length items]))
                          = Inr l}"
    by simp
qed

lemma sum_counts_distinct:
  fixes labels :: "int list"
  assumes "distinct ks" and "set ks = set labels - {- 1}"
  shows "(\<Sum>k \<leftarrow> ks. card (members labels k)) = length labels - count_list labels (- 1)"
proof -
  let ?keep = "filter (\<lambda>l. l \<noteq> - 1) labels"
  have same: "card (members labels k) = count_list ?keep k" if "k \<in> set ks" for k
  proof -
    from that assms(2) have "k \<noteq> - 1" by auto
    then have "count_list labels k = count_list ?keep k"
      by (induction labels) simp_all
    then show ?thesis by (simp only: count_list_members)
  qed
  have "map (\<lambda>k. card (members labels k)) ks = map (count_list ?keep) ks"
    using same by (intro map_cong) simp_all
  then have "(\<Sum>k \<leftarrow> ks. card (members labels k)) = (\<Sum>k \<leftarrow> ks. count_list ?keep k)"
    by (rule arg_cong [where f = sum_list])
  also have "\<dots> = sum (count_list ?keep) (set ks)"
    using assms(1) by (rule sum_list_distinct_conv_sum_set)
  also have "\<dots> = length ?keep"
    using assms(2) by (intro sum_count_set) auto
  also have "\<dots> = length labels - count_list labels (- 1)"
  proof -
    have "length ?keep + count_list labels (- 1) = length labels"
      by (induction labels) simp_all
    then show ?thesis by linarith
  qed
  finally show ?thesis .
qed

subsection \<open>C3: the clusters partition the non-noise items\<close>

text \<open>
  C3: on a valid batch (one coordinate row per item, one HDBSCAN label per row),
  \<open>run_clustering\<close> returns in text mode, and whenever it returns (in image mode the label
  step may raise, see C4) the labels are HDBSCAN's and the cluster records are in ascending
  order of id with pairwise different ids, the ids being exactly the labels other than
  \<open>-1\<close>. So every item whose label is not \<open>-1\<close> has exactly one record with its label as id,
  a noise item has none, every record's size is the number of items carrying its id and its
  centroid is the mean of their coordinates, and the sizes add up to the number of items
  minus the number of noise items.
\<close>

theorem C3_run_clustering_partition:
  assumes "length items = length coords" and "length (fit_predict coords) = length coords"
  shows "(mode \<noteq> ''image'' \<longrightarrow>
            (\<exists>r. run_clustering fit_predict h fs coords items mode model processor = Inr r)) \<and>
         (\<forall>labels clusters.
            run_clustering fit_predict h fs coords items mode model processor
              = Inr (labels, clusters) \<longrightarrow>
            labels = fit_predict coords \<and>
            sorted (map c_id clusters) \<and> distinct (map c_id clusters) \<and>
            c_id ` set clusters = set labels - {- 1} \<and>
            (\<forall>i < length items. labels ! i \<noteq> - 1 \<longrightarrow>
               (\<exists>!j. j < length clusters \<and> c_id (clusters ! j) = labels ! i)) \<and>
            (\<forall>i < length items. labels ! i = - 1 \<longrightarrow>
               (\<forall>c \<in> set clusters. c_id c \<noteq> labels ! i)) \<and>
            (\<forall>c \<in> set clusters.
               c_size c = card (members labels (c_id c)) \<and>
               c_centroid c
                 = ((\<Sum>i \<in> members labels (c_id c). fst (coords ! i))
                      / real (card (members labels (c_id c))),
                    (\<Sum>i \<in> members labels (c_id c). snd (coords ! i))
                      / real (card (members labels (c_id c))))) \<and>
            sum_list (map c_size clusters) = length items - count_list labels (- 1))"
proof -
  have total: "\<exists>r. run_clustering fit_predict h fs coords items mode model processor = Inr r"
    if text_mode: "mode \<noteq> ''image''"
  proof -
    let ?labels = "fit_predict coords"
    have "\<exists>c. cluster_record h fs mode model processor coords items ?labels k = Inr c" for k
      using text_mode assms
      by (simp add: cluster_record_def cluster_label_def Let_def)
    then have "\<exists>cs. collect (cluster_record h fs mode model processor coords items ?labels)
                       (unique_labels ?labels) = Inr cs"
      by (intro collect_total) simp
    then show ?thesis
      by (auto simp: run_clustering_def Let_def)
  qed
  have partial: "labels = fit_predict coords \<and>
            sorted (map c_id clusters) \<and> distinct (map c_id clusters) \<and>
            c_id ` set clusters = set labels - {- 1} \<and>
            (\<forall>i < length items. labels ! i \<noteq> - 1 \<longrightarrow>
               (\<exists>!j. j < length clusters \<and> c_id (clusters ! j) = labels ! i)) \<and>
            (\<forall>i < length items. labels ! i = - 1 \<longrightarrow>
               (\<forall>c \<in> set clusters. c_id c \<noteq> labels ! i)) \<and>
            (\<forall>c \<in> set clusters.
               c_size c = card (members labels (c_id c)) \<and>
               c_centroid c
                 = ((\<Sum>i \<in> members labels (c_id c). fst (coords ! i))
                      / real (card (members labels (c_id c))),
                    (\<Sum>i \<in> members labels (c_id c). snd (coords ! i))
                      / real (card (members labels (c_id c))))) \<and>
            sum_list (map c_size clusters) = length items - count_list labels (- 1)"
    if run: "run_clustering fit_predict h fs coords items mode model processor
                 = Inr (labels, clusters)" for labels clusters
  proof -
    from run have labels: "labels = fit_predict coords"
      and col: "collect (cluster_record h fs mode model processor coords items labels)
                  (unique_labels labels) = Inr clusters"
      by (auto simp: run_clustering_def Let_def split: sum.splits)
    from labels assms have len: "length labels = length coords" "length items = length labels"
      by simp_all
    from col have rel: "list_all2
        (\<lambda>k c. cluster_record h fs mode model processor coords items labels k = Inr c)
        (unique_labels labels) clusters"
      by (rule collect_Inr)
    have fields: "c_id c = k \<and> c_size c = card (members labels k) \<and>
        c_centroid c = ((\<Sum>i \<in> members labels k. fst (coords ! i)) / real (card (members labels k)),
                        (\<Sum>i \<in> members labels k. snd (coords ! i)) / real (card (members labels k)))"
      if "cluster_record h fs mode model processor coords items labels k = Inr c" for k c
      using cluster_record_fields(1-3) [OF that len(1)] by simp
    from rel fields have "list_all2 (\<lambda>k c. k = c_id c) (unique_labels labels) clusters"
      by (auto elim!: list_all2_mono)
    then have ids: "map c_id clusters = unique_labels labels"
      by (simp add: list_all2_conv_all_nth list_eq_iff_nth_eq)
    from rel fields have "list_all2 (\<lambda>k c. card (members labels k) = c_size c)
                            (unique_labels labels) clusters"
      by (auto elim!: list_all2_mono)
    then have sizes: "map c_size clusters = map (\<lambda>k. card (members labels k)) (unique_labels labels)"
      by (simp add: list_all2_conv_all_nth list_eq_iff_nth_eq)
    have srt: "sorted (map c_id clusters)"
      by (simp add: ids unique_labels_sorted)
    have dist: "distinct (map c_id clusters)"
      by (simp add: ids unique_labels_distinct)
    have "set (map c_id clusters) = set labels - {- 1}"
      by (simp only: ids unique_labels_set)
    then have idset: "c_id ` set clusters = set labels - {- 1}"
      by simp
    have one: "\<exists>!j. j < length clusters \<and> c_id (clusters ! j) = labels ! i"
      if "i < length items" "labels ! i \<noteq> - 1" for i
    proof -
      from that len have "labels ! i \<in> set (map c_id clusters)"
        using idset by simp
      with dist have "\<exists>!j. j < length (map c_id clusters) \<and> map c_id clusters ! j = labels ! i"
        by (intro distinct_Ex1)
      then show ?thesis
        by (auto simp: nth_map)
    qed
    have none: "c_id c \<noteq> labels ! i"
      if "i < length items" "labels ! i = - 1" "c \<in> set clusters" for i c
      using that idset by auto
    have rec: "c_size c = card (members labels (c_id c)) \<and>
        c_centroid c
          = ((\<Sum>i \<in> members labels (c_id c). fst (coords ! i))
               / real (card (members labels (c_id c))),
             (\<Sum>i \<in> members labels (c_id c). snd (coords ! i))
               / real (card (members labels (c_id c))))" if "c \<in> set clusters" for c
    proof -
      from that rel obtain k where
        "cluster_record h fs mode model processor coords items labels k = Inr c"
        by (auto simp: in_set_conv_nth list_all2_conv_all_nth)
      with fields show ?thesis by auto
    qed
    have "sum_list (map c_size clusters)
            = (\<Sum>k \<leftarrow> unique_labels labels. card (members labels k))"
      by (simp only: sizes)
    also have "\<dots> = length labels - count_list labels (- 1)"
      by (rule sum_counts_distinct) (simp_all add: unique_labels_distinct unique_labels_set)
    finally have total_size: "sum_list (map c_size clusters) = length items - count_list labels (- 1)"
      by (simp add: len)
    show ?thesis
    proof (intro conjI)
      show "labels = fit_predict coords" by (rule labels)
      show "sorted (map c_id clusters)" by (rule srt)
      show "distinct (map c_id clusters)" by (rule dist)
      show "c_id ` set clusters = set labels - {- 1}" by (rule idset)
      show "\<forall>i < length items. labels ! i \<noteq> - 1 \<longrightarrow>
               (\<exists>!j. j < length clusters \<and> c_id (clusters ! j) = labels ! i)"
        using one by (intro allI impI)
      show "\<forall>i < length items. labels ! i = - 1 \<longrightarrow>
               (\<forall>c \<in> set clusters. c_id c \<noteq> labels ! i)"
        using none by (intro allI impI ballI)
      show "\<forall>c \<in> set clusters.
               c_size c = card (members labels (c_id c)) \<and>
               c_centroid c
                 = ((\<Sum>i \<in> members labels (c_id c). fst (coords ! i))
                      / real (card (members labels (c_id c))),
                    (\<Sum>i \<in> members labels (c_id c). snd (coords ! i))
                      / real (card (members labels (c_id c))))"
        using rec by (intro ballI)
      show "sum_list (map c_size clusters) = length items - count_list labels (- 1)"
        by (rule total_size)
    qed
  qed
  show ?thesis
  proof (rule conjI)
    show "mode \<noteq> ''image'' \<longrightarrow>
            (\<exists>r. run_clustering fit_predict h fs coords items mode model processor = Inr r)"
      using total by (intro impI)
    show "\<forall>labels clusters.
            run_clustering fit_predict h fs coords items mode model processor
              = Inr (labels, clusters) \<longrightarrow>
            labels = fit_predict coords \<and>
            sorted (map c_id clusters) \<and> distinct (map c_id clusters) \<and>
            c_id ` set clusters = set labels - {- 1} \<and>
            (\<forall>i < length items. labels ! i \<noteq> - 1 \<longrightarrow>
               (\<exists>!j. j < length clusters \<and> c_id (clusters ! j) = labels ! i)) \<and>
            (\<forall>i < length items. labels ! i = - 1 \<longrightarrow>
               (\<forall>c \<in> set clusters. c_id c \<noteq> labels ! i)) \<and>
            (\<forall>c \<in> set clusters.
               c_size c = card (members labels (c_id c)) \<and>
               c_centroid c
                 = ((\<Sum>i \<in> members labels (c_id c). fst (coords ! i))
                      / real (card (members labels (c_id c))),
                    (\<Sum>i \<in> members labels (c_id c). snd (coords ! i))
                      / real (card (members labels (c_id c))))) \<and>
            sum_list (map c_size clusters) = length items - count_list labels (- 1)"
      using partial by (intro allI impI)
  qed
qed

theorem C3_run_clustering_partition_witness:
  "length [\<lparr>item_id = ''n1'', content = ''n1.md'', timestamp = 5,
              preview = Some ''garden notes'', cluster = 0\<rparr>,
           \<lparr>item_id = ''n2'', content = ''n2.md'', timestamp = 6,
              preview = Some ''stray'', cluster = 0\<rparr>,
           \<lparr>item_id = ''n3'', content = ''n3.md'', timestamp = 7,
              preview = Some ''garden plans'', cluster = 0\<rparr>]
     = length ([(1, 2), (9, 9), (3, 4)] :: point list) \<and>
   length ((\<lambda>cs. [0, - 1, 0 :: int]) ([(1, 2), (9, 9), (3, 4)] :: point list))
     = length ([(1, 2), (9, 9), (3, 4)] :: point list) \<and>
   run_clustering (\<lambda>cs. [0, - 1, 0]) \<lparr>can_open = (\<lambda>p. False), torch_importable = False\<rparr>
     Map.empty [(1, 2), (9, 9), (3, 4)]
     [\<lparr>item_id = ''n1'', content = ''n1.md'', timestamp = 5,
        preview = Some ''garden notes'', cluster = 0\<rparr>,
      \<lparr>item_id = ''n2'', content = ''n2.md'', timestamp = 6,
        preview = Some ''stray'', cluster = 0\<rparr>,
      \<lparr>item_id = ''n3'', content = ''n3.md'', timestamp = 7,
        preview = Some ''garden plans'', cluster = 0\<rparr>]
     ''text'' None None
   = Inr ([0, - 1, 0],
          [\<lparr>c_id = 0, c_label = ''Garden'', c_centroid = (2, 3), c_size = 2\<rparr>]) \<and>
   sum_list (map c_size [\<lparr>c_id = 0, c_label = ''Garden'', c_centroid = (2, 3), c_size = 2\<rparr>])
     = 3 - count_list [0, - 1, 0 :: int] (- 1)"
proof -
  let ?items = "[\<lparr>item_id = ''n1'', content = ''n1.md'', timestamp = 5,
                   preview = Some ''garden notes'', cluster = 0\<rparr>,
                 \<lparr>item_id = ''n2'', content = ''n2.md'', timestamp = 6,
                   preview = Some ''stray'', cluster = 0\<rparr>,
                 \<lparr>item_id = ''n3'', content = ''n3.md'', timestamp = 7,
                   preview = Some ''garden plans'', cluster = 0\<rparr>]"
  let ?coords = "[(1, 2), (9, 9), (3, 4)] :: point list"
  let ?fit = "\<lambda>cs :: point list. [0, - 1, 0 :: int]"
  let ?h = "\<lparr>can_open = (\<lambda>p. False), torch_importable = False\<rparr>"
  let ?clusters = "[\<lparr>c_id = 0, c_label = ''Garden'', c_centroid = (2, 3), c_size = 2\<rparr>]"
  have l1: "length ?items = length ?coords"
    by simp
  have l2: "length (?fit ?coords) = length ?coords"
    by simp
  have lab: "get_text_cluster_label Map.empty
      [\<lparr>item_id = ''n1'', content = ''n1.md'', timestamp = 5,
         preview = Some ''garden notes'', cluster = 0\<rparr>,
       \<lparr>item_id = ''n3'', content = ''n3.md'', timestamp = 7,
         preview = Some ''garden plans'', cluster = 0\<rparr>] = ''Garden''"
    by code_simp
  have ev: "run_clustering ?fit ?h Map.empty ?coords ?items ''text'' None None
      = Inr ([0, - 1, 0], ?clusters)"
    by (simp add: run_clustering_def unique_labels_def cluster_record_def cluster_label_def
        select_mask_def mean_axis0_def lab upt_rec [of 0] upt_rec [of 1] upt_rec [of 2])
  note all = C3_run_clustering_partition [OF l1 l2, of "''text''" ?h Map.empty None None,
      THEN conjunct2, THEN spec, THEN spec, THEN mp, OF ev]
  from all have "sum_list (map c_size ?clusters)
      = length ?items - count_list [0, - 1, 0 :: int] (- 1)"
    by (elim conjE)
  then have "sum_list (map c_size ?clusters) = 3 - count_list [0, - 1, 0 :: int] (- 1)"
    by simp
  with l1 l2 ev show ?thesis by (intro conjI)
qed

subsection \<open>The distance graph\<close>

lemma square_nth: "square n m \<Longrightarrow> x < n \<Longrightarrow> length (m ! x) = n"
  by (simp add: square_def list_all_length)

lemma square_set_cell: "square n m \<Longrightarrow> square n (set_cell i j v m)"
  by (cases "i < length m")
     (auto simp: square_def set_cell_def list_all_length nth_list_update)

lemma nth_set_cell:
  "square n m \<Longrightarrow> x < n \<Longrightarrow> y < n \<Longrightarrow>
   set_cell i j v m ! x ! y = (if x = i \<and> y = j then v else m ! x ! y)"
proof -
  assume sq: "square n m" and x: "x < n" and y: "y < n"
  from sq x have lx: "x < length m" and ly: "y < length (m ! x)"
    using y by (simp_all add: square_def list_all_length)
  show ?thesis
  proof (cases "x = i")
    case True
    with lx have "set_cell i j v m ! x = (m ! x)[j := v]"
      by (simp add: set_cell_def)
    with ly show ?thesis
      using True by (simp add: nth_list_update)
  next
    case False
    then have "set_cell i j v m ! x = m ! x"
      by (simp add: set_cell_def)
    with False show ?thesis by simp
  qed
qed

lemma square_pair_step: "square n d \<Longrightarrow> square n (pair_step sim ts i j d)"
  by (simp add: pair_step_def Let_def square_set_cell)

lemma nth_pair_step:
  assumes "square n d" "x < n" "y < n"
  shows "pair_step sim ts i j d ! x ! y
           = (if pair_linked sim ts i j \<and> ((x = i \<and> y = j) \<or> (x = j \<and> y = i))
              then Some (pair_weight sim ts i j) else d ! x ! y)"
proof (cases "pair_linked sim ts i j")
  case False
  then show ?thesis by (simp add: pair_step_def)
next
  case True
  let ?w = "Some (pair_weight sim ts i j)"
  have outer: "set_cell j i ?w (set_cell i j ?w d) ! x ! y
          = (if x = j \<and> y = i then ?w else set_cell i j ?w d ! x ! y)"
    using square_set_cell [OF assms(1)] assms(2,3) by (rule nth_set_cell)
  have inner: "set_cell i j ?w d ! x ! y = (if x = i \<and> y = j then ?w else d ! x ! y)"
    using assms by (rule nth_set_cell)
  have eq: "pair_step sim ts i j d = set_cell j i ?w (set_cell i j ?w d)"
    using True by (simp add: pair_step_def Let_def)
  have merge: "(if A then v else if B then v else e) = (if B \<or> A then v else e)"
    for A B and v e :: "real option"
    by simp
  have "pair_step sim ts i j d ! x ! y
      = (if (x = i \<and> y = j) \<or> (x = j \<and> y = i) then ?w else d ! x ! y)"
    unfolding eq outer inner merge ..
  with True show ?thesis
    by (simp only: simp_thms)
qed

lemma square_fold_pairs:
  "square n d \<Longrightarrow> square n (fold (\<lambda>(i, j). pair_step sim ts i j) ps d)"
  by (induction ps arbitrary: d) (auto simp: square_pair_step)

lemma nth_fold_pairs:
  assumes "square n d" "x < n" "y < n" "\<forall>(i, j) \<in> set ps. i < j"
  shows "fold (\<lambda>(i, j). pair_step sim ts i j) ps d ! x ! y
           = (if (x, y) \<in> set ps \<and> pair_linked sim ts x y then Some (pair_weight sim ts x y)
              else if (y, x) \<in> set ps \<and> pair_linked sim ts y x then Some (pair_weight sim ts y x)
              else d ! x ! y)"
  using assms
proof (induction ps arbitrary: d)
  case Nil
  then show ?case by simp
next
  case (Cons p ps)
  obtain i j where p: "p = (i, j)" by (cases p)
  from Cons.prems p have ij: "i < j" and rest: "\<forall>(i, j) \<in> set ps. i < j"
    by auto
  have sq: "square n (pair_step sim ts i j d)"
    using Cons.prems(1) by (rule square_pair_step)
  have step: "pair_step sim ts i j d ! x ! y
           = (if pair_linked sim ts i j \<and> ((x = i \<and> y = j) \<or> (x = j \<and> y = i))
              then Some (pair_weight sim ts i j) else d ! x ! y)"
    using Cons.prems(1-3) by (rule nth_pair_step)
  have no_rev: "(a, b) \<in> set ps \<Longrightarrow> \<not> b < a" for a b
    using rest by auto
  have "fold (\<lambda>(i, j). pair_step sim ts i j) (p # ps) d ! x ! y
      = fold (\<lambda>(i, j). pair_step sim ts i j) ps (pair_step sim ts i j d) ! x ! y"
    by (simp add: p)
  also have "\<dots> = (if (x, y) \<in> set ps \<and> pair_linked sim ts x y then Some (pair_weight sim ts x y)
              else if (y, x) \<in> set ps \<and> pair_linked sim ts y x then Some (pair_weight sim ts y x)
              else pair_step sim ts i j d ! x ! y)"
    using sq Cons.prems(2,3) rest by (rule Cons.IH)
  also have "\<dots> = (if (x, y) \<in> set (p # ps) \<and> pair_linked sim ts x y
                   then Some (pair_weight sim ts x y)
              else if (y, x) \<in> set (p # ps) \<and> pair_linked sim ts y x
                   then Some (pair_weight sim ts y x)
              else d ! x ! y)" (is "?lhs = ?rhs")
  proof -
    from ij no_rev [of j i] have nji: "(j, i) \<notin> set ps" by blast
    from ij have ne: "i \<noteq> j" "j \<noteq> i" by simp_all
    consider (a) "x = i" "y = j" | (b) "x = j" "y = i"
      | (c) "\<not> (x = i \<and> y = j)" "\<not> (x = j \<and> y = i)"
      by blast
    then show ?thesis
    proof cases
      case a
      have st: "pair_step sim ts i j d ! i ! j
              = (if pair_linked sim ts i j then Some (pair_weight sim ts i j) else d ! i ! j)"
        using step a by simp
      have l: "?lhs = (if pair_linked sim ts i j then Some (pair_weight sim ts i j)
                       else d ! i ! j)"
        unfolding a using nji by (simp add: st)
      have r: "?rhs = (if pair_linked sim ts i j then Some (pair_weight sim ts i j)
                       else d ! i ! j)"
        unfolding a p using nji ne by simp
      show ?thesis by (simp only: l r)
    next
      case b
      have st: "pair_step sim ts i j d ! j ! i
              = (if pair_linked sim ts i j then Some (pair_weight sim ts i j) else d ! j ! i)"
        using step b by simp
      have l: "?lhs = (if pair_linked sim ts i j then Some (pair_weight sim ts i j)
                       else d ! j ! i)"
        unfolding b using nji by (simp add: st)
      have r: "?rhs = (if pair_linked sim ts i j then Some (pair_weight sim ts i j)
                       else d ! j ! i)"
        unfolding b p using nji ne by simp
      show ?thesis by (simp only: l r)
    next
      case c
      have st: "pair_step sim ts i j d ! x ! y = d ! x ! y"
        using step c by simp
      have m: "(x, y) \<in> set (p # ps) \<longleftrightarrow> (x, y) \<in> set ps"
        "(y, x) \<in> set (p # ps) \<longleftrightarrow> (y, x) \<in> set ps"
        using c by (auto simp: p)
      show ?thesis by (simp only: st m)
    qed
  qed
  finally show ?case .
qed

lemma fold_nested_pairs:
  "fold (\<lambda>i d. fold (f i) (g i) d) is d
     = fold (\<lambda>(i, j). f i j) (concat (map (\<lambda>i. map (Pair i) (g i)) is)) d"
  by (induction "is" arbitrary: d) (simp_all add: fold_map o_def)

lemma loop_pair_mem:
  "(a, b) \<in> set (concat (map (\<lambda>i. map (Pair i) [i + 1..<n]) [0..<n])) \<longleftrightarrow> a < b \<and> b < n"
  by (auto simp: image_iff)

lemma square_replicate: "square n (replicate n (replicate n v))"
  by (simp add: square_def list_all_length)

lemma graph_square: "square (length ts) (build_constrained_graph sim ts)"
  unfolding build_constrained_graph_def Let_def fold_nested_pairs
  by (intro square_fold_pairs square_replicate)

lemma graph_cell:
  assumes "x < length ts" "y < length ts"
  shows "build_constrained_graph sim ts ! x ! y
           = (if x < y \<and> pair_linked sim ts x y then Some (pair_weight sim ts x y)
              else if y < x \<and> pair_linked sim ts y x then Some (pair_weight sim ts y x)
              else None)"
proof -
  let ?n = "length ts"
  let ?ps = "concat (map (\<lambda>i. map (Pair i) [i + 1..<?n]) [0..<?n])"
  have mem: "(a, b) \<in> set ?ps \<longleftrightarrow> a < b \<and> b < ?n" for a b
    by (rule loop_pair_mem)
  have ord: "\<forall>(i, j) \<in> set ?ps. i < j"
  proof (intro ballI)
    fix p assume p: "p \<in> set ?ps"
    obtain a b where ab: "p = (a, b)" by (cases p)
    from p have "a < b" unfolding ab mem by simp
    then show "case p of (i, j) \<Rightarrow> i < j"
      by (simp add: ab)
  qed
  have "build_constrained_graph sim ts ! x ! y
      = fold (\<lambda>(i, j). pair_step sim ts i j) ?ps (replicate ?n (replicate ?n None)) ! x ! y"
    by (simp only: build_constrained_graph_def Let_def fold_nested_pairs)
  also have "\<dots> = (if (x, y) \<in> set ?ps \<and> pair_linked sim ts x y
                   then Some (pair_weight sim ts x y)
              else if (y, x) \<in> set ?ps \<and> pair_linked sim ts y x
                   then Some (pair_weight sim ts y x)
              else replicate ?n (replicate ?n None) ! x ! y)"
    using square_replicate assms ord by (rule nth_fold_pairs)
  finally show ?thesis
    using assms by (simp only: mem) simp
qed

subsection \<open>C2: edges and weights of the constrained graph\<close>

text \<open>
  C2: for a pair \<open>i < j\<close> of items, \<open>build_constrained_graph\<close> leaves both cells \<open>(i, j)\<close> and
  \<open>(j, i)\<close> finite exactly when the absolute timestamp difference is below 30 days or the
  similarity \<open>similarity[i, j]\<close> is above 0.85; the two cells then hold the same weight
  \<open>(1 - similarity) + (time_diff / 30 days) * 0.01\<close>, and otherwise both stay infinite, as the
  diagonal always does. Two items 40 days apart with similarity 0.9 get the weight
  \<open>0.1 + (40 / 30) * 0.01\<close>; two items 40 days apart with similarity 0.5 get no edge.
\<close>

theorem C2_constrained_graph:
  assumes "square (length timestamps) similarity" and "i < j" and "j < length timestamps"
  shows "let d = build_constrained_graph similarity timestamps;
             time_diff = \<bar>timestamps ! i - timestamps ! j\<bar>;
             sim = similarity ! i ! j
         in square (length timestamps) d \<and>
            (d ! i ! j \<noteq> None \<longleftrightarrow> time_diff < 30 * 86400 \<or> sim > 0.85) \<and>
            (time_diff < 30 * 86400 \<or> sim > 0.85 \<longrightarrow>
               d ! i ! j = Some ((1 - sim) + (real_of_int time_diff / (30 * 86400)) * 0.01)) \<and>
            (\<not> (time_diff < 30 * 86400 \<or> sim > 0.85) \<longrightarrow> d ! i ! j = None) \<and>
            d ! j ! i = d ! i ! j \<and>
            d ! i ! i = None \<and> d ! j ! j = None \<and>
            (time_diff = 40 * 86400 \<and> sim = 0.9 \<longrightarrow> d ! i ! j = Some (0.1 + (40 / 30) * 0.01)) \<and>
            (time_diff = 40 * 86400 \<and> sim = 0.5 \<longrightarrow> d ! i ! j = None)"
proof -
  let ?d = "build_constrained_graph similarity timestamps"
  let ?td = "\<bar>timestamps ! i - timestamps ! j\<bar>"
  let ?sim = "similarity ! i ! j"
  from assms have i: "i < length timestamps" and j: "j < length timestamps"
    by simp_all
  have linked: "pair_linked similarity timestamps i j \<longleftrightarrow> ?td < 30 * 86400 \<or> ?sim > 0.85"
    by (simp add: pair_linked_def TEMPORAL_THRESHOLD_def SIMILARITY_THRESHOLD_def)
  have weight: "pair_weight similarity timestamps i j
                  = (1 - ?sim) + (real_of_int ?td / (30 * 86400)) * 0.01"
    by (simp add: pair_weight_def TEMPORAL_THRESHOLD_def)
  have ij: "?d ! i ! j = (if ?td < 30 * 86400 \<or> ?sim > 0.85
                          then Some ((1 - ?sim) + (real_of_int ?td / (30 * 86400)) * 0.01)
                          else None)"
  proof -
    from assms(2) have "\<not> j < i" by simp
    with assms(2) have "?d ! i ! j
        = (if pair_linked similarity timestamps i j
           then Some (pair_weight similarity timestamps i j) else None)"
      by (simp add: graph_cell [OF i j])
    then show ?thesis
      unfolding linked weight .
  qed
  have ji: "?d ! j ! i = ?d ! i ! j"
    using assms(2) by (simp add: graph_cell [OF i j] graph_cell [OF j i])
  have diag: "?d ! i ! i = None" "?d ! j ! j = None"
    by (simp_all add: graph_cell [OF i i] graph_cell [OF j j])
  have sq: "square (length timestamps) ?d"
    by (rule graph_square)
  have s1: "?d ! i ! j = Some (0.1 + (40 / 30) * 0.01)" if "?td = 40 * 86400 \<and> ?sim = 0.9"
    unfolding ij using that by simp
  have s2: "?d ! i ! j = None" if "?td = 40 * 86400 \<and> ?sim = 0.5"
    unfolding ij using that by simp
  show ?thesis
    unfolding Let_def
  proof (intro conjI impI)
    show "square (length timestamps) ?d" by (rule sq)
    show "(?d ! i ! j \<noteq> None) = (?td < 30 * 86400 \<or> 0.85 < ?sim)"
      unfolding ij by simp
    show "?d ! i ! j = Some ((1 - ?sim) + (real_of_int ?td / (30 * 86400)) * 0.01)"
      if "?td < 30 * 86400 \<or> 0.85 < ?sim"
      unfolding ij using that by simp
    show "?d ! i ! j = None" if "\<not> (?td < 30 * 86400 \<or> 0.85 < ?sim)"
      unfolding ij using that by simp
    show "?d ! j ! i = ?d ! i ! j" by (rule ji)
    show "?d ! i ! i = None" "?d ! j ! j = None" by (rule diag)+
    show "?d ! i ! j = Some (0.1 + (40 / 30) * 0.01)" if "?td = 40 * 86400 \<and> ?sim = 0.9"
      using that by (rule s1)
    show "?d ! i ! j = None" if "?td = 40 * 86400 \<and> ?sim = 0.5"
      using that by (rule s2)
  qed
qed

theorem C2_constrained_graph_witness:
  "square (length [0, 40 * 86400 :: int]) [[1, 0.9], [0.9, 1 :: real]] \<and>
   (0 :: nat) < 1 \<and> 1 < length [0, 40 * 86400 :: int] \<and>
   build_constrained_graph [[1, 0.9], [0.9, 1]] [0, 40 * 86400] ! 0 ! 1
     = Some (0.1 + (40 / 30) * 0.01) \<and>
   build_constrained_graph [[1, 0.9], [0.9, 1]] [0, 40 * 86400]
     = [[None, Some (17 / 150)], [Some (17 / 150), None]] \<and>
   build_constrained_graph [[1, 0.5], [0.5, 1]] [0, 40 * 86400] ! 0 ! 1 = None \<and>
   build_constrained_graph [[1, 0.5], [0.5, 1]] [0, 40 * 86400]
     = [[None, None], [None, None]]"
proof -
  let ?ts = "[0, 40 * 86400 :: int]"
  let ?hi = "[[1, 0.9], [0.9, 1 :: real]]"
  let ?lo = "[[1, 0.5], [0.5, 1 :: real]]"
  have sq: "square (length ?ts) ?hi" "square (length ?ts) ?lo"
    by (simp_all add: square_def)
  have lt: "(0 :: nat) < 1" "1 < length ?ts"
    by simp_all
  have far: "\<bar>?ts ! 0 - ?ts ! 1\<bar> = 40 * 86400"
    by simp
  have "\<bar>?ts ! 0 - ?ts ! 1\<bar> = 40 * 86400 \<and> ?hi ! 0 ! 1 = 0.9"
    using far by simp
  with C2_constrained_graph [OF sq(1) lt]
  have hi: "build_constrained_graph ?hi ?ts ! 0 ! 1 = Some (0.1 + (40 / 30) * 0.01)"
    unfolding Let_def by blast
  have "\<bar>?ts ! 0 - ?ts ! 1\<bar> = 40 * 86400 \<and> ?lo ! 0 ! 1 = 0.5"
    using far by simp
  with C2_constrained_graph [OF sq(2) lt]
  have lo: "build_constrained_graph ?lo ?ts ! 0 ! 1 = None"
    unfolding Let_def by blast
  have ehi: "build_constrained_graph ?hi ?ts = [[None, Some (17 / 150)], [Some (17 / 150), None]]"
    by (simp add: build_constrained_graph_def pair_step_def pair_linked_def pair_weight_def
        set_cell_def TEMPORAL_THRESHOLD_def SIMILARITY_THRESHOLD_def Let_def)
  have elo: "build_constrained_graph ?lo ?ts = [[None, None], [None, None]]"
    by (simp add: build_constrained_graph_def pair_step_def pair_linked_def pair_weight_def
        set_cell_def TEMPORAL_THRESHOLD_def SIMILARITY_THRESHOLD_def Let_def)
  from sq(1) lt hi ehi lo elo show ?thesis
    by (intro conjI)
qed

subsection \<open>Loops that may raise\<close>

lemma for_each_from:
  assumes "\<And>i s. a \<le> i \<Longrightarrow> i < n \<Longrightarrow> P i s \<Longrightarrow> \<exists>s'. body i s = Inr s' \<and> P (Suc i) s'"
    and "P a s" and "a \<le> n"
  shows "\<exists>s'. for_each body [a..<n] s = Inr s' \<and> P n s'"
  using assms
proof (induction "n - a" arbitrary: a s)
  case 0
  then show ?case by simp
next
  case (Suc d)
  then have lt: "a < n" by simp
  then have up: "[a..<n] = a # [Suc a..<n]"
    by (simp add: upt_rec)
  from Suc.prems(1) [of a s] lt Suc.prems(2)
  obtain t where t: "body a s = Inr t" "P (Suc a) t"
    by auto
  have "\<exists>s'. for_each body [Suc a..<n] t = Inr s' \<and> P n s'"
  proof (rule Suc.hyps(1))
    show "d = n - Suc a" using Suc.hyps(2) by simp
    show "\<exists>s'. body i s = Inr s' \<and> P (Suc i) s'" if "Suc a \<le> i" "i < n" "P i s" for i s
      using Suc.prems(1) [of i s] that by simp
    show "P (Suc a) t" by (rule t)
    show "Suc a \<le> n" using lt by simp
  qed
  with t(1) show ?case
    by (simp add: up)
qed

lemma for_each_upt:
  assumes "\<And>i s. i < n \<Longrightarrow> P i s \<Longrightarrow> \<exists>s'. body i s = Inr s' \<and> P (Suc i) s'"
    and "P 0 s"
  shows "\<exists>s'. for_each body [0..<n] s = Inr s' \<and> P n s'"
  using assms by (intro for_each_from) simp_all

subsection \<open>The root\<close>

lemma takeWhile_stops:
  "\<exists>x \<in> set xs. \<not> P x \<Longrightarrow>
   length (takeWhile P xs) < length xs \<and> \<not> P (xs ! length (takeWhile P xs))"
  by (induction xs) auto

lemma argmin_props:
  assumes "ts \<noteq> []"
  shows "argmin ts < length ts" and "ts ! argmin ts = Min (set ts)"
    and "\<forall>i < argmin ts. ts ! i \<noteq> Min (set ts)"
proof -
  let ?P = "\<lambda>t. t \<noteq> Min (set ts)"
  from assms have "Min (set ts) \<in> set ts"
    by (intro Min_in) simp_all
  then have "\<exists>t \<in> set ts. \<not> ?P t" by blast
  then have stop: "length (takeWhile ?P ts) < length ts \<and> \<not> ?P (ts ! length (takeWhile ?P ts))"
    by (rule takeWhile_stops)
  then show "argmin ts < length ts" and "ts ! argmin ts = Min (set ts)"
    by (simp_all add: argmin_def)
  show "\<forall>i < argmin ts. ts ! i \<noteq> Min (set ts)"
  proof (intro allI impI)
    fix i assume i: "i < argmin ts"
    then have "takeWhile ?P ts ! i \<in> set (takeWhile ?P ts)"
      unfolding argmin_def by (intro nth_mem)
    then have "?P (takeWhile ?P ts ! i)"
      by (rule set_takeWhileD [THEN conjunct2])
    moreover from i have "takeWhile ?P ts ! i = ts ! i"
      unfolding argmin_def by (rule takeWhile_nth)
    ultimately show "ts ! i \<noteq> Min (set ts)" by simp
  qed
qed

subsection \<open>The invariant of the traversal\<close>

lemma filter_id_update:
  "i < length bs \<Longrightarrow> \<not> bs ! i \<Longrightarrow>
   length (filter id (bs[i := True])) = Suc (length (filter id bs))"
proof (induction bs arbitrary: i)
  case Nil
  then show ?case by simp
next
  case (Cons b bs)
  then show ?case by (cases i) simp_all
qed

lemma nth_update_True: "i < length bs \<Longrightarrow> bs[k := True] ! i = (i = k \<or> bs ! i)"
  by (cases "i = k") simp_all

lemma filter_id_le: "length (filter id bs) \<le> length bs"
  by (rule length_filter_le)

lemma symmetrize_square: "square n (symmetrize n m)"
  by (simp add: symmetrize_def square_def list_all_length)


lemma visit_inv:
  assumes inv: "bfs_inv m n r s" and sq: "square n m"
    and node: "node < n" "visited s ! node" and nb: "nb < n"
  shows "\<exists>s'. visit m node nb s = Inr s' \<and> bfs_inv m n r s' \<and> visited s' ! node"
proof -
  from inv have len: "length (visited s) = n" "length (parent s) = n"
    and r: "r < n" "visited s ! r" "parent s ! r = - 1"
    and qu: "\<forall>q \<in> set (queue s). q < n \<and> visited s ! q"
    and unv: "\<forall>i < n. \<not> visited s ! i \<longrightarrow> parent s ! i = - 1"
    and reach: "\<forall>i < n. visited s ! i \<longrightarrow> pos_reach m n r i"
    by (simp_all add: bfs_inv_def)
  from inv obtain ord where ord: "numbered m n r (visited s) (parent s) (visited_count s) ord"
    by (auto simp: bfs_inv_def)
  from sq node(1) nb have idx: "node < length m" "nb < length (m ! node)"
    by (simp_all add: square_def list_all_length)
  show ?thesis
  proof (cases "m ! node ! nb > 0 \<and> \<not> visited s ! nb")
    case False
    with idx len nb have "visit m node nb s = Inr s"
      by (auto simp: visit_def)
    with inv node(2) show ?thesis by simp
  next
    case True
    define s' where "s' = s\<lparr>visited := (visited s)[nb := True],
                             parent := (parent s)[nb := int node],
                             queue := queue s @ [nb]\<rparr>"
    from True idx len nb have v: "visit m node nb s = Inr s'"
      by (simp add: visit_def s'_def)
    from True r(2) node(2) have ne: "nb \<noteq> r" "nb \<noteq> node"
      by auto
    have vis': "visited s' ! i = (i = nb \<or> visited s ! i)" if "i < n" for i
      using that len by (simp add: s'_def nth_update_True)
    have par': "parent s' ! i = (if i = nb then int node else parent s ! i)" if "i < n" for i
      using that len by (simp add: s'_def nth_list_update)
    have cnt: "visited_count s' = Suc (visited_count s)"
      using True nb len by (simp add: visited_count_def s'_def filter_id_update)
    have l': "length (visited s') = n" "length (parent s') = n"
      using len by (simp_all add: s'_def)
    have r': "visited s' ! r" "parent s' ! r = - 1"
      using r ne by (simp_all add: vis' par')
    have q': "\<forall>q \<in> set (queue s'). q < n \<and> visited s' ! q"
    proof
      fix q assume "q \<in> set (queue s')"
      then have "q = nb \<or> q \<in> set (queue s)"
        by (auto simp: s'_def)
      with qu nb show "q < n \<and> visited s' ! q"
        by (auto simp: vis')
    qed
    have u': "\<forall>i < n. \<not> visited s' ! i \<longrightarrow> parent s' ! i = - 1"
      using unv by (simp add: vis' par')
    have reach_nb: "pos_reach m n r nb"
      using reach node nb True by (auto intro: pos_reach.step)
    have p': "\<forall>i < n. visited s' ! i \<longrightarrow> pos_reach m n r i"
      using reach reach_nb by (auto simp: vis')
    define ord' where "ord' = ord(nb := visited_count s)"
    have o': "numbered m n r (visited s') (parent s') (visited_count s') ord'"
      unfolding numbered_def
    proof (intro allI impI)
      fix i assume i: "i < n" and vi: "visited s' ! i"
      show "ord' i < visited_count s' \<and>
            (i \<noteq> r \<longrightarrow> (\<exists>p < n. parent s' ! i = int p \<and> visited s' ! p \<and> ord' p < ord' i
                                \<and> m ! p ! i > 0))"
      proof (cases "i = nb")
        case True
        have "ord node < visited_count s"
          using ord node by (simp add: numbered_def)
        then have "parent s' ! nb = int node \<and> visited s' ! node \<and> ord' node < ord' nb
                    \<and> m ! node ! nb > 0"
          using nb node ne \<open>m ! node ! nb > 0 \<and> \<not> visited s ! nb\<close>
          by (simp add: par' vis' ord'_def)
        with node(1) True show ?thesis
          by (auto simp: cnt ord'_def)
      next
        case False
        with vi i have vi0: "visited s ! i"
          by (simp add: vis')
        with ord i have oi: "ord i < visited_count s"
          and pi: "i \<noteq> r \<longrightarrow> (\<exists>p < n. parent s ! i = int p \<and> visited s ! p \<and> ord p < ord i
                                     \<and> m ! p ! i > 0)"
          by (simp_all add: numbered_def)
        have "\<exists>p < n. parent s' ! i = int p \<and> visited s' ! p \<and> ord' p < ord' i \<and> m ! p ! i > 0"
          if "i \<noteq> r"
        proof -
          from pi that obtain p where p: "p < n" "parent s ! i = int p" "visited s ! p"
            "ord p < ord i" "m ! p ! i > 0"
            by blast
          from p(3) \<open>m ! node ! nb > 0 \<and> \<not> visited s ! nb\<close> have "p \<noteq> nb"
            by auto
          with p False i show ?thesis
            by (auto simp: par' vis' ord'_def)
        qed
        with oi False show ?thesis
          by (simp add: cnt ord'_def)
      qed
    qed
    have "bfs_inv m n r s'"
      unfolding bfs_inv_def using l' r(1) r' q' u' p' o' by blast
    moreover have "visited s' ! node"
      using node by (simp add: vis')
    ultimately show ?thesis
      using v by blast
  qed
qed

lemma visit_loop_inv:
  assumes "bfs_inv m n r s" and "square n m" and "node < n" "visited s ! node"
  shows "\<exists>s'. for_each (visit m node) [0..<n] s = Inr s' \<and> bfs_inv m n r s'"
proof -
  have "\<exists>s'. for_each (visit m node) [0..<n] s = Inr s'
              \<and> (bfs_inv m n r s' \<and> visited s' ! node)"
  proof (rule for_each_upt [where P = "\<lambda>i s. bfs_inv m n r s \<and> visited s ! node"])
    show "bfs_inv m n r s \<and> visited s ! node"
      using assms by simp
    show "\<exists>s'. visit m node i t = Inr s' \<and> (bfs_inv m n r s' \<and> visited s' ! node)"
      if "i < n" "bfs_inv m n r t \<and> visited t ! node" for i t
      using visit_inv [of m n r t node i] that assms(2,3) by blast
  qed
  then show ?thesis by blast
qed

lemma bfs_loop_inv:
  "square n m \<Longrightarrow> bfs_inv m n r s \<Longrightarrow>
   \<exists>s'. bfs_loop m n s = Inr s' \<and> bfs_inv m n r s' \<and> queue s' = []"
proof (induction m n s rule: bfs_loop.induct)
  case (1 m n s)
  show ?case
  proof (cases "queue s")
    case Nil
    with "1.prems" show ?thesis
      by (simp add: bfs_loop.simps [of m n s])
  next
    case (Cons node rest)
    let ?t = "s\<lparr>queue := rest\<rparr>"
    from "1.prems"(2) Cons have node: "node < n" "visited ?t ! node"
      by (simp_all add: bfs_inv_def)
    from "1.prems"(2) Cons have "bfs_inv m n r ?t"
      by (simp add: bfs_inv_def visited_count_def)
    with "1.prems"(1) node obtain s1 where s1: "for_each (visit m node) [0..<n] ?t = Inr s1"
      and inv1: "bfs_inv m n r s1"
      using visit_loop_inv [of m n r ?t node] by blast
    from "1.IH" [OF Cons s1 "1.prems"(1) inv1]
    obtain s' where "bfs_loop m n s1 = Inr s'" "bfs_inv m n r s'" "queue s' = []"
      by blast
    with Cons s1 show ?thesis
      by (simp add: bfs_loop.simps [of m n s])
  qed
qed

lemma initial_inv:
  assumes "r < n"
  shows "bfs_inv m n r \<lparr>visited = (replicate n False)[r := True],
                         parent = replicate n (- 1), queue = [r]\<rparr>"
proof -
  let ?s = "\<lparr>visited = (replicate n False)[r := True],
             parent = replicate n (- 1), queue = [r]\<rparr>"
  have vis: "(replicate n False)[r := True] ! i = (i = r)" if "i < n" for i
    using that by (simp add: nth_update_True)
  have "numbered m n r (visited ?s) (parent ?s) (visited_count ?s) (\<lambda>i. 0)"
    using assms by (simp add: numbered_def nth_list_update visited_count_def filter_id_update)
  then have "\<exists>ord. numbered m n r (visited ?s) (parent ?s) (visited_count ?s) ord"
    by (rule exI [where x = "\<lambda>i. 0"])
  moreover have "\<forall>i < n. visited ?s ! i \<longrightarrow> pos_reach m n r i"
    by (auto simp: vis intro: pos_reach.start)
  ultimately show ?thesis
    using assms unfolding bfs_inv_def by (simp add: nth_list_update)
qed

lemma traverse_inv:
  assumes "ts \<noteq> []" and "square (length ts) m"
  shows "\<exists>s. traverse m ts = Inr s \<and> bfs_inv m (length ts) (argmin ts) s \<and> queue s = []"
proof -
  from assms(1) have "argmin ts < length ts"
    by (rule argmin_props)
  then have "bfs_inv m (length ts) (argmin ts)
      \<lparr>visited = (replicate (length ts) False)[argmin ts := True],
        parent = replicate (length ts) (- 1), queue = [argmin ts]\<rparr>"
    by (rule initial_inv)
  with assms(2) show ?thesis
    using assms(1) by (simp add: traverse_def Let_def bfs_loop_inv)
qed

lemma attach_loop:
  assumes "length (visited s) = n" and "length (parent s) = n"
  shows "\<exists>s'. for_each (attach r) [0..<n] s = Inr s' \<and> length (parent s') = n \<and>
           (\<forall>i < n. parent s' ! i = (if visited s ! i then parent s ! i else int r))"
proof -
  let ?P = "\<lambda>k t. visited t = visited s \<and> length (parent t) = n \<and>
              (\<forall>i < n. parent t ! i = (if i < k \<and> \<not> visited s ! i then int r else parent s ! i))"
  have "\<exists>s'. for_each (attach r) [0..<n] s = Inr s' \<and> ?P n s'"
  proof (rule for_each_upt [where P = ?P])
    show "?P 0 s"
      using assms by simp
    show "\<exists>s'. attach r k t = Inr s' \<and> ?P (Suc k) s'" if k: "k < n" and t: "?P k t" for k t
    proof (cases "visited s ! k")
      case True
      with k t assms have "attach r k t = Inr t"
        by (simp add: attach_def)
      moreover have "?P (Suc k) t"
        using t True by (auto simp: less_Suc_eq)
      ultimately show ?thesis by blast
    next
      case False
      with k t assms have "attach r k t = Inr (t\<lparr>parent := (parent t)[k := int r]\<rparr>)"
        by (simp add: attach_def)
      moreover have "?P (Suc k) (t\<lparr>parent := (parent t)[k := int r]\<rparr>)"
        using t False k by (auto simp: less_Suc_eq nth_list_update)
      ultimately show ?thesis by blast
    qed
  qed
  then show ?thesis by auto
qed

lemma parents_result:
  assumes "ts \<noteq> []" and "square (length ts) m"
  shows "\<exists>s par. traverse m ts = Inr s \<and> parents m ts = Inr par \<and>
           bfs_inv m (length ts) (argmin ts) s \<and> length par = length ts \<and>
           (\<forall>i < length ts. par ! i = (if visited s ! i then parent s ! i else int (argmin ts)))"
proof -
  from traverse_inv [OF assms] obtain s where s: "traverse m ts = Inr s"
    and inv: "bfs_inv m (length ts) (argmin ts) s"
    by blast
  from inv have "length (visited s) = length ts" "length (parent s) = length ts"
    by (simp_all add: bfs_inv_def)
  from attach_loop [OF this, of "argmin ts"] obtain s' where
    a: "for_each (attach (argmin ts)) [0..<length ts] s = Inr s'" and
    l: "length (parent s') = length ts" and
    p: "\<forall>i < length ts. parent s' ! i = (if visited s ! i then parent s ! i else int (argmin ts))"
    by blast
  from s a have "parents m ts = Inr (parent s')"
    by (simp add: parents_def)
  with s inv l p show ?thesis by blast
qed

subsection \<open>Following parent pointers\<close>

lemma follow_numbered:
  assumes num: "numbered m n r vs par bound ord"
  shows "i < n \<Longrightarrow> vs ! i \<Longrightarrow> \<exists>k \<le> ord i. follow par k i = r"
proof (induction "ord i" arbitrary: i rule: less_induct)
  case less
  show ?case
  proof (cases "i = r")
    case True
    then have "follow par 0 i = r" by simp
    then show ?thesis by blast
  next
    case False
    with num less.prems obtain p where p: "p < n" "par ! i = int p" "vs ! p" "ord p < ord i"
      unfolding numbered_def by blast
    from less.hyps [OF p(4) p(1) p(3)] obtain k where k: "k \<le> ord p" "follow par k p = r"
      by blast
    from p(2) k(2) have "follow par (Suc k) i = r"
      by simp
    moreover from k(1) p(4) have "Suc k \<le> ord i"
      by simp
    ultimately show ?thesis by blast
  qed
qed

lemma numbered_bound:
  "numbered m n r vs par bound ord \<Longrightarrow> i < n \<Longrightarrow> vs ! i \<Longrightarrow> ord i < bound"
  by (simp add: numbered_def)

lemma tree_shape:
  assumes "ts \<noteq> []" and "square (length ts) m"
  shows "\<exists>s par. traverse m ts = Inr s \<and> parents m ts = Inr par \<and>
           length (visited s) = length ts \<and> length par = length ts \<and>
           visited s ! argmin ts \<and> par ! argmin ts = - 1 \<and>
           (\<forall>i < length ts. i \<noteq> argmin ts \<longrightarrow> (\<exists>p < length ts. par ! i = int p)) \<and>
           (\<forall>i < length ts. \<exists>k \<le> length ts. follow par k i = argmin ts) \<and>
           (\<forall>i < length ts. \<not> visited s ! i \<longrightarrow> par ! i = int (argmin ts)) \<and>
           (\<forall>i < length ts. visited s ! i \<and> i \<noteq> argmin ts \<longrightarrow>
              (\<exists>p < length ts. par ! i = int p \<and> visited s ! p \<and> m ! p ! i > 0)) \<and>
           (\<forall>i < length ts. visited s ! i \<longrightarrow> pos_reach m (length ts) (argmin ts) i)"
proof -
  let ?n = "length ts" and ?r = "argmin ts"
  from parents_result [OF assms] obtain s par where s: "traverse m ts = Inr s"
    and par: "parents m ts = Inr par" and inv: "bfs_inv m ?n ?r s"
    and len: "length par = ?n"
    and pi: "\<forall>i < ?n. par ! i = (if visited s ! i then parent s ! i else int ?r)"
    by blast
  from inv have lv: "length (visited s) = ?n" and r: "?r < ?n" "visited s ! ?r" "parent s ! ?r = - 1"
    and reach: "\<forall>i < ?n. visited s ! i \<longrightarrow> pos_reach m ?n ?r i"
    by (simp_all add: bfs_inv_def)
  from inv obtain ord where ord: "numbered m ?n ?r (visited s) (parent s) (visited_count s) ord"
    by (auto simp: bfs_inv_def)
  have ord': "numbered m ?n ?r (visited s) par (visited_count s) ord"
    using ord pi unfolding numbered_def by simp
  have cnt: "visited_count s \<le> ?n"
    using filter_id_le [of "visited s"] lv by (simp add: visited_count_def)
  have root: "par ! ?r = - 1"
    using pi r by simp
  have disc: "\<exists>p < ?n. par ! i = int p \<and> visited s ! p \<and> m ! p ! i > 0"
    if "i < ?n" "visited s ! i" "i \<noteq> ?r" for i
    using ord' that unfolding numbered_def by blast
  have unv: "par ! i = int ?r" if "i < ?n" "\<not> visited s ! i" for i
    using pi that by simp
  have one: "\<exists>p < ?n. par ! i = int p" if "i < ?n" "i \<noteq> ?r" for i
  proof (cases "visited s ! i")
    case True
    with disc that show ?thesis by blast
  next
    case False
    with unv that r(1) show ?thesis by blast
  qed
  have chain: "\<exists>k \<le> ?n. follow par k i = ?r" if i: "i < ?n" for i
  proof (cases "visited s ! i")
    case True
    from follow_numbered [OF ord' i True] obtain k where k: "k \<le> ord i" "follow par k i = ?r"
      by blast
    from numbered_bound [OF ord' i True] cnt k(1) have "k \<le> ?n"
      by simp
    with k(2) show ?thesis by blast
  next
    case False
    with unv i have "follow par (Suc 0) i = ?r"
      by simp
    moreover from i have "Suc 0 \<le> ?n" by simp
    ultimately show ?thesis by blast
  qed
  show ?thesis
  proof (intro exI conjI)
    show "traverse m ts = Inr s" by (rule s)
    show "parents m ts = Inr par" by (rule par)
    show "length (visited s) = ?n" by (rule lv)
    show "length par = ?n" by (rule len)
    show "visited s ! ?r" by (rule r)
    show "par ! ?r = - 1" by (rule root)
    show "\<forall>i < ?n. i \<noteq> ?r \<longrightarrow> (\<exists>p < ?n. par ! i = int p)"
      using one by blast
    show "\<forall>i < ?n. \<exists>k \<le> ?n. follow par k i = ?r"
      using chain by blast
    show "\<forall>i < ?n. \<not> visited s ! i \<longrightarrow> par ! i = int ?r"
      using unv by blast
    show "\<forall>i < ?n. visited s ! i \<and> i \<noteq> ?r \<longrightarrow>
              (\<exists>p < ?n. par ! i = int p \<and> visited s ! p \<and> m ! p ! i > 0)"
      using disc by blast
    show "\<forall>i < ?n. visited s ! i \<longrightarrow> pos_reach m ?n ?r i"
      by (rule reach)
  qed
qed

subsection \<open>C1: the parent pointers form a tree rooted at the earliest item\<close>

text \<open>
  C1: for at least one item and an \<open>N \<times> N\<close> spanning-tree array (whatever SciPy returns),
  \<open>build_phylogeny_tree\<close> returns a document with one node per item, in input order. The
  root is the first item with the minimum timestamp; it is the only node whose parent is
  \<^verbatim>\<open>None\<close>, every other node has the id of one item as its parent, following the parent
  indices from any node reaches the root in at most \<open>N\<close> steps, and a node the traversal
  did not visit has the root as its parent.
\<close>

theorem C1_phylogeny_tree:
  assumes "items \<noteq> []"
    and "square (length items) (minimum_spanning_tree (distances_fallback distances))"
  shows "let n = length items;
             ts = map timestamp items;
             root = argmin ts;
             sym = symmetrize n (minimum_spanning_tree (distances_fallback distances))
         in \<exists>tree s par.
              build_phylogeny_tree minimum_spanning_tree date distances items = Inr tree \<and>
              traverse sym ts = Inr s \<and> parents sym ts = Inr par \<and>
              root < n \<and> timestamp (items ! root) = Min (timestamp ` set items) \<and>
              root_id tree = item_id (items ! root) \<and>
              length (nodes tree) = n \<and>
              (\<forall>i < n. n_id (nodes tree ! i) = item_id (items ! i)) \<and>
              (\<forall>i < n. (n_parent (nodes tree ! i) = None) = (i = root)) \<and>
              (\<forall>i < n. i \<noteq> root \<longrightarrow>
                 (\<exists>p < n. par ! i = int p \<and>
                          n_parent (nodes tree ! i) = Some (item_id (items ! p)))) \<and>
              (\<forall>i < n. \<exists>k \<le> n. follow par k i = root) \<and>
              (\<forall>i < n. \<not> visited s ! i \<longrightarrow>
                 par ! i = int root \<and>
                 n_parent (nodes tree ! i) = Some (item_id (items ! root)))"
proof -
  define n where "n = length items"
  define ts where "ts = map timestamp items"
  define root where "root = argmin ts"
  define sym where "sym = symmetrize n (minimum_spanning_tree (distances_fallback distances))"
  have ne: "ts \<noteq> []" and lts: "length ts = n"
    using assms(1) by (simp_all add: ts_def n_def)
  have sq: "square (length ts) sym"
    unfolding lts sym_def by (rule symmetrize_square)
  from tree_shape [OF ne sq] obtain s par where s: "traverse sym ts = Inr s"
    and par: "parents sym ts = Inr par"
    and len: "length par = n"
    and proot: "par ! root = - 1"
    and one: "\<forall>i < n. i \<noteq> root \<longrightarrow> (\<exists>p < n. par ! i = int p)"
    and chain: "\<forall>i < n. \<exists>k \<le> n. follow par k i = root"
    and unv: "\<forall>i < n. \<not> visited s ! i \<longrightarrow> par ! i = int root"
    unfolding lts root_def [symmetric] by blast
  from argmin_props [OF ne] have root: "root < n" and rmin: "ts ! root = Min (set ts)"
    unfolding lts root_def by simp_all
  from root rmin have tmin: "timestamp (items ! root) = Min (timestamp ` set items)"
    by (simp add: ts_def n_def)
  define tree where "tree = \<lparr>nodes = map (make_node date items par) [0..<n],
      root_id = item_id (items ! root),
      root_date = date (Min (set ts)),
      date_min = date (Min (set ts)),
      date_max = date (Max (set ts))\<rparr>"
  have build: "build_phylogeny_tree minimum_spanning_tree date distances items = Inr tree"
    using par
    by (simp add: build_phylogeny_tree_def Let_def tree_def n_def ts_def root_def sym_def)
  have node: "nodes tree ! i = make_node date items par i" if "i < n" for i
    using that by (simp add: tree_def)
  have nid: "n_id (nodes tree ! i) = item_id (items ! i)" if "i < n" for i
    using that by (simp add: node make_node_def Let_def)
  have npar: "n_parent (nodes tree ! i)
                = (if par ! i \<ge> 0 then Some (item_id (items ! nat (par ! i))) else None)"
    if "i < n" for i
    using that by (simp add: node make_node_def Let_def)
  have none: "(n_parent (nodes tree ! i) = None) = (i = root)" if i: "i < n" for i
  proof (cases "i = root")
    case True
    with i proot show ?thesis by (simp add: npar)
  next
    case False
    with one i obtain p where "par ! i = int p" by blast
    with i False show ?thesis by (simp add: npar)
  qed
  have some: "\<exists>p < n. par ! i = int p \<and> n_parent (nodes tree ! i) = Some (item_id (items ! p))"
    if i: "i < n" "i \<noteq> root" for i
  proof -
    from one i obtain p where p: "p < n" "par ! i = int p" by blast
    with i(1) have "n_parent (nodes tree ! i) = Some (item_id (items ! p))"
      by (simp add: npar)
    with p show ?thesis by blast
  qed
  have fall: "par ! i = int root \<and> n_parent (nodes tree ! i) = Some (item_id (items ! root))"
    if i: "i < n" "\<not> visited s ! i" for i
  proof -
    from unv i have "par ! i = int root" by blast
    with i(1) show ?thesis by (simp add: npar)
  qed
  have "\<exists>tree s par.
          build_phylogeny_tree minimum_spanning_tree date distances items = Inr tree \<and>
          traverse sym ts = Inr s \<and> parents sym ts = Inr par \<and>
          root < n \<and> timestamp (items ! root) = Min (timestamp ` set items) \<and>
          root_id tree = item_id (items ! root) \<and>
          length (nodes tree) = n \<and>
          (\<forall>i < n. n_id (nodes tree ! i) = item_id (items ! i)) \<and>
          (\<forall>i < n. (n_parent (nodes tree ! i) = None) = (i = root)) \<and>
          (\<forall>i < n. i \<noteq> root \<longrightarrow>
             (\<exists>p < n. par ! i = int p \<and>
                      n_parent (nodes tree ! i) = Some (item_id (items ! p)))) \<and>
          (\<forall>i < n. \<exists>k \<le> n. follow par k i = root) \<and>
          (\<forall>i < n. \<not> visited s ! i \<longrightarrow>
             par ! i = int root \<and>
             n_parent (nodes tree ! i) = Some (item_id (items ! root)))"
  proof (intro exI conjI)
    show "build_phylogeny_tree minimum_spanning_tree date distances items = Inr tree"
      by (rule build)
    show "traverse sym ts = Inr s" by (rule s)
    show "parents sym ts = Inr par" by (rule par)
    show "root < n" by (rule root)
    show "timestamp (items ! root) = Min (timestamp ` set items)" by (rule tmin)
    show "root_id tree = item_id (items ! root)" by (simp add: tree_def)
    show "length (nodes tree) = n" by (simp add: tree_def)
    show "\<forall>i < n. n_id (nodes tree ! i) = item_id (items ! i)"
      using nid by blast
    show "\<forall>i < n. (n_parent (nodes tree ! i) = None) = (i = root)"
      using none by blast
    show "\<forall>i < n. i \<noteq> root \<longrightarrow>
             (\<exists>p < n. par ! i = int p \<and>
                      n_parent (nodes tree ! i) = Some (item_id (items ! p)))"
      using some by blast
    show "\<forall>i < n. \<exists>k \<le> n. follow par k i = root" by (rule chain)
    show "\<forall>i < n. \<not> visited s ! i \<longrightarrow>
             par ! i = int root \<and>
             n_parent (nodes tree ! i) = Some (item_id (items ! root))"
      using fall by blast
  qed
  then show ?thesis
    unfolding Let_def n_def ts_def root_def sym_def .
qed

theorem C1_phylogeny_tree_witness:
  "[\<lparr>item_id = ''a'', content = ''a.png'', timestamp = 7, preview = None, cluster = 0\<rparr>,
    \<lparr>item_id = ''b'', content = ''b.png'', timestamp = 5, preview = None, cluster = 0\<rparr>,
    \<lparr>item_id = ''c'', content = ''c.png'', timestamp = 9, preview = None, cluster = - 1\<rparr>,
    \<lparr>item_id = ''d'', content = ''d.png'', timestamp = 6, preview = None, cluster = 1\<rparr>] \<noteq> [] \<and>
   square 4 ((\<lambda>d. [[0, 0, 0, 0.3], [0.2, 0, 0, 0], [0, 0, 0, 0], [0, 0, 0, 0 :: real]])
               (distances_fallback (replicate 4 (replicate 4 None)))) \<and>
   (\<exists>tree. build_phylogeny_tree
       (\<lambda>d. [[0, 0, 0, 0.3], [0.2, 0, 0, 0], [0, 0, 0, 0], [0, 0, 0, 0]])
       (\<lambda>ts. ''1970-01-01'') (replicate 4 (replicate 4 None))
       [\<lparr>item_id = ''a'', content = ''a.png'', timestamp = 7, preview = None, cluster = 0\<rparr>,
        \<lparr>item_id = ''b'', content = ''b.png'', timestamp = 5, preview = None, cluster = 0\<rparr>,
        \<lparr>item_id = ''c'', content = ''c.png'', timestamp = 9, preview = None, cluster = - 1\<rparr>,
        \<lparr>item_id = ''d'', content = ''d.png'', timestamp = 6, preview = None, cluster = 1\<rparr>]
     = Inr tree) \<and>
   build_phylogeny_tree
       (\<lambda>d. [[0, 0, 0, 0.3], [0.2, 0, 0, 0], [0, 0, 0, 0], [0, 0, 0, 0]])
       (\<lambda>ts. ''1970-01-01'') (replicate 4 (replicate 4 None))
       [\<lparr>item_id = ''a'', content = ''a.png'', timestamp = 7, preview = None, cluster = 0\<rparr>,
        \<lparr>item_id = ''b'', content = ''b.png'', timestamp = 5, preview = None, cluster = 0\<rparr>,
        \<lparr>item_id = ''c'', content = ''c.png'', timestamp = 9, preview = None, cluster = - 1\<rparr>,
        \<lparr>item_id = ''d'', content = ''d.png'', timestamp = 6, preview = None, cluster = 1\<rparr>]
     = Inr \<lparr>nodes =
              [\<lparr>n_id = ''a'', n_parent = Some ''b'', n_timestamp = 7,
                 n_date = ''1970-01-01'', n_cluster = 0\<rparr>,
               \<lparr>n_id = ''b'', n_parent = None, n_timestamp = 5,
                 n_date = ''1970-01-01'', n_cluster = 0\<rparr>,
               \<lparr>n_id = ''c'', n_parent = Some ''b'', n_timestamp = 9,
                 n_date = ''1970-01-01'', n_cluster = - 1\<rparr>,
               \<lparr>n_id = ''d'', n_parent = Some ''a'', n_timestamp = 6,
                 n_date = ''1970-01-01'', n_cluster = 1\<rparr>],
            root_id = ''b'', root_date = ''1970-01-01'',
            date_min = ''1970-01-01'', date_max = ''1970-01-01''\<rparr> \<and>
   parents (symmetrize 4 [[0, 0, 0, 0.3], [0.2, 0, 0, 0], [0, 0, 0, 0], [0, 0, 0, 0]])
     [7, 5, 9, 6] = Inr [1, - 1, 1, 0] \<and>
   traverse (symmetrize 4 [[0, 0, 0, 0.3], [0.2, 0, 0, 0], [0, 0, 0, 0], [0, 0, 0, 0]])
     [7, 5, 9, 6]
     = Inr \<lparr>visited = [True, True, False, True], parent = [1, - 1, - 1, 0], queue = []\<rparr> \<and>
   follow [1, - 1, 1, 0] 2 3 = 1"
proof -
  let ?items = "[\<lparr>item_id = ''a'', content = ''a.png'', timestamp = 7, preview = None, cluster = 0\<rparr>,
    \<lparr>item_id = ''b'', content = ''b.png'', timestamp = 5, preview = None, cluster = 0\<rparr>,
    \<lparr>item_id = ''c'', content = ''c.png'', timestamp = 9, preview = None, cluster = - 1\<rparr>,
    \<lparr>item_id = ''d'', content = ''d.png'', timestamp = 6, preview = None, cluster = 1\<rparr>]"
  let ?mst = "\<lambda>d :: real list list.
      [[0, 0, 0, 0.3], [0.2, 0, 0, 0], [0, 0, 0, 0], [0, 0, 0, 0 :: real]]"
  let ?dist = "replicate 4 (replicate 4 None) :: dist_matrix"
  let ?date = "\<lambda>ts :: int. ''1970-01-01''"
  have h1: "?items \<noteq> []"
    by simp
  have h2: "square (length ?items) (?mst (distances_fallback ?dist))"
    by (simp add: square_def)
  from C1_phylogeny_tree [OF h1 h2, of ?date]
  have ex: "\<exists>tree. build_phylogeny_tree ?mst ?date ?dist ?items = Inr tree"
    unfolding Let_def by blast
  have ev: "build_phylogeny_tree ?mst ?date ?dist ?items
     = Inr \<lparr>nodes =
              [\<lparr>n_id = ''a'', n_parent = Some ''b'', n_timestamp = 7,
                 n_date = ''1970-01-01'', n_cluster = 0\<rparr>,
               \<lparr>n_id = ''b'', n_parent = None, n_timestamp = 5,
                 n_date = ''1970-01-01'', n_cluster = 0\<rparr>,
               \<lparr>n_id = ''c'', n_parent = Some ''b'', n_timestamp = 9,
                 n_date = ''1970-01-01'', n_cluster = - 1\<rparr>,
               \<lparr>n_id = ''d'', n_parent = Some ''a'', n_timestamp = 6,
                 n_date = ''1970-01-01'', n_cluster = 1\<rparr>],
            root_id = ''b'', root_date = ''1970-01-01'',
            date_min = ''1970-01-01'', date_max = ''1970-01-01''\<rparr>"
    by code_simp
  have pv: "parents (symmetrize 4 [[0, 0, 0, 0.3], [0.2, 0, 0, 0], [0, 0, 0, 0], [0, 0, 0, 0]])
     [7, 5, 9, 6] = Inr [1, - 1, 1, 0]"
    by code_simp
  have tv: "traverse (symmetrize 4 [[0, 0, 0, 0.3], [0.2, 0, 0, 0], [0, 0, 0, 0], [0, 0, 0, 0]])
     [7, 5, 9, 6]
     = Inr \<lparr>visited = [True, True, False, True], parent = [1, - 1, - 1, 0], queue = []\<rparr>"
    by code_simp
  have fv: "follow [1, - 1, 1, 0] 2 3 = 1"
    by code_simp
  have h2': "square 4 (?mst (distances_fallback ?dist))"
    by (simp add: square_def)
  from h1 h2' ex ev pv tv fv show ?thesis
    by (intro conjI)
qed

subsection \<open>C9: an edge of weight zero is invisible to the traversal\<close>



end
